theory Spec2Isabelle
  imports Main
begin

section \<open>Values of the document store\<close>

text \<open>
  The converter of \<^verbatim>\<open>scripts/build/dbConvert.mjs\<close> works on the result of
  \<^verbatim>\<open>JSON.parse\<close>. A JavaScript string is a \<open>string\<close> here, each \<open>char\<close> standing
  for one code unit below 256; a number is the integer it denotes; an object is the list
  of its entries in the order \<^verbatim>\<open>Object.entries\<close> yields them. A property that is
  absent (\<^verbatim>\<open>undefined\<close>) is \<open>None\<close>.
\<close>

datatype json =
    JNull
  | JBool bool
  | JNum int
  | JStr string
  | JArr "json list"
  | JObj "(string \<times> json) list"

type_synonym jsval = "json option"

text \<open>JavaScript truthiness, as used by \<^verbatim>\<open>!x\<close>, \<^verbatim>\<open>x || y\<close> and \<^verbatim>\<open>while (x)\<close>.\<close>

fun truthy :: "jsval \<Rightarrow> bool" where
  "truthy None = False"
| "truthy (Some JNull) = False"
| "truthy (Some (JBool b)) = b"
| "truthy (Some (JNum n)) = (n \<noteq> 0)"
| "truthy (Some (JStr s)) = (s \<noteq> [])"
| "truthy (Some (JArr xs)) = True"
| "truthy (Some (JObj kvs)) = True"

section \<open>sanitizeFilename\<close>

text \<open>
  The characters matched by \<^verbatim>\<open>\s\<close> among the code units below 256: tab, line feed,
  vertical tab, form feed, carriage return, space and no-break space. They are also the
  characters \<^verbatim>\<open>String.prototype.trim\<close> removes.
\<close>

definition js_whitespace :: "char \<Rightarrow> bool" where
  "js_whitespace c \<longleftrightarrow>
     c \<in> set [CHR 0x09, CHR 0x0A, CHR 0x0B, CHR 0x0C, CHR 0x0D, CHR 0x20, CHR 0xA0]"

text \<open>The character class \<^verbatim>\<open>[<>:"|?*\\/\s&]\<close> of the first replacement.\<close>

definition invalid_char :: "char \<Rightarrow> bool" where
  "invalid_char c \<longleftrightarrow>
     c \<in> set [CHR ''<'', CHR ''>'', CHR '':'', CHR 0x22, CHR ''|'', CHR ''?'', CHR ''*'',
              CHR 0x5C, CHR ''/'', CHR ''&'']
     \<or> js_whitespace c"

abbreviation underscore :: char where
  "underscore \<equiv> CHR ''_''"

definition is_underscore :: "char \<Rightarrow> bool" where
  "is_underscore c \<longleftrightarrow> c = underscore"

text \<open>\<^verbatim>\<open>.replace(/[<>:"|?*\\/\s&]+/g, '_')\<close>: every maximal run becomes one underscore.\<close>

function replace_invalid :: "string \<Rightarrow> string" where
  "replace_invalid [] = []"
| "replace_invalid (c # cs) =
     (if invalid_char c then underscore # replace_invalid (dropWhile invalid_char cs)
      else c # replace_invalid cs)"
  by pat_completeness auto
termination
  by (relation "measure length") (auto simp: length_dropWhile_le less_Suc_eq_le)

text \<open>\<^verbatim>\<open>.replace(/_{2,}/g, '_')\<close>: a run of two or more underscores becomes one.\<close>

function collapse_underscores :: "string \<Rightarrow> string" where
  "collapse_underscores [] = []"
| "collapse_underscores [c] = [c]"
| "collapse_underscores (c # d # cs) =
     (if is_underscore c \<and> is_underscore d
      then underscore # collapse_underscores (dropWhile is_underscore cs)
      else c # collapse_underscores (d # cs))"
  by pat_completeness auto
termination
  by (relation "measure length")
    (auto simp: less_Suc_eq_le intro!: le_SucI length_dropWhile_le)

text \<open>\<^verbatim>\<open>.replace(/^_+|_+$/g, '')\<close>: the leading and the trailing run of underscores go.\<close>

definition strip_underscores :: "string \<Rightarrow> string" where
  "strip_underscores s = rev (dropWhile is_underscore (rev (dropWhile is_underscore s)))"

text \<open>\<^verbatim>\<open>.trim()\<close>\<close>

definition js_trim :: "string \<Rightarrow> string" where
  "js_trim s = rev (dropWhile js_whitespace (rev (dropWhile js_whitespace s)))"

definition sanitize_string :: "string \<Rightarrow> string" where
  "sanitize_string s =
     (let r = js_trim (strip_underscores (collapse_underscores (replace_invalid s)))
      in if r = [] then ''unnamed'' else r)"

text \<open>
  \<^verbatim>\<open>sanitizeFilename(filename)\<close>: a falsy or non-string argument gives \<^verbatim>\<open>'unnamed'\<close>
  at once.
\<close>

definition sanitizeFilename :: "jsval \<Rightarrow> string" where
  "sanitizeFilename filename =
     (case filename of
        Some (JStr s) \<Rightarrow> if s = [] then ''unnamed'' else sanitize_string s
      | _ \<Rightarrow> ''unnamed'')"

text \<open>The shape a sanitized name has unless it is the fallback: used in the proofs only.\<close>

fun no_double_underscore :: "string \<Rightarrow> bool" where
  "no_double_underscore [] = True"
| "no_double_underscore [c] = True"
| "no_double_underscore (c # d # cs) =
     (\<not> (is_underscore c \<and> is_underscore d) \<and> no_double_underscore (d # cs))"

section \<open>String conversion and objects\<close>

definition digit_char :: "nat \<Rightarrow> char" where
  "digit_char d = char_of (48 + d)"

function show_nat :: "nat \<Rightarrow> string" where
  "show_nat n = (if n < 10 then [digit_char n] else show_nat (n div 10) @ [digit_char (n mod 10)])"
  by pat_completeness auto
termination
  by (relation "measure id") auto

declare show_nat.simps [simp del]

definition show_int :: "int \<Rightarrow> string" where
  "show_int i = (if i < 0 then CHR ''-'' # show_nat (nat (- i)) else show_nat (nat i))"

fun join_with :: "string \<Rightarrow> string list \<Rightarrow> string" where
  "join_with sep [] = []"
| "join_with sep [x] = x"
| "join_with sep (x # y # ys) = x @ sep @ join_with sep (y # ys)"

text \<open>
  What a template literal \<^verbatim>\<open>`${v}`\<close> puts for a value: a string as it is, an integer in
  decimal (the model has no numbers of 1e21 and beyond), an array as its elements joined
  by commas with \<^verbatim>\<open>null\<close> left empty, an object as \<^verbatim>\<open>[object Object]\<close>.
\<close>

fun js_to_string :: "json \<Rightarrow> string" where
  "js_to_string JNull = ''null''"
| "js_to_string (JBool b) = (if b then ''true'' else ''false'')"
| "js_to_string (JNum n) = show_int n"
| "js_to_string (JStr s) = s"
| "js_to_string (JArr xs) =
     join_with '','' (map (\<lambda>x. if x = JNull then [] else js_to_string x) xs)"
| "js_to_string (JObj kvs) = ''[object Object]''"

text \<open>
  \<^verbatim>\<open>obj[k] = v\<close> on an object kept as its entries: an existing key keeps its place, a new
  key goes last. (No key written by the converter is an array index: each starts with
  \<^verbatim>\<open>!\<close> or is \<^verbatim>\<open>embedded\<close>.)
\<close>

fun assign :: "'k \<Rightarrow> 'v \<Rightarrow> ('k \<times> 'v) list \<Rightarrow> ('k \<times> 'v) list" where
  "assign k v [] = [(k, v)]"
| "assign k v (p # ps) = (if fst p = k then (k, v) # ps else p # assign k v ps)"

fun indexed_from :: "nat \<Rightarrow> json list \<Rightarrow> (string \<times> json) list" where
  "indexed_from i [] = []"
| "indexed_from i (x # xs) = (show_nat i, x) # indexed_from (Suc i) xs"

text \<open>
  The own enumerable properties of a value, as \<^verbatim>\<open>{ ...v }\<close> and \<^verbatim>\<open>Object.entries(v)\<close>
  see them: the entries of an object, the indexed elements of an array, the indexed
  characters of a string, nothing for a number, a boolean or (in a spread) \<^verbatim>\<open>null\<close>.
\<close>

fun own_entries :: "json \<Rightarrow> (string \<times> json) list" where
  "own_entries (JObj kvs) = kvs"
| "own_entries (JArr xs) = indexed_from 0 xs"
| "own_entries (JStr s) = indexed_from 0 (map (\<lambda>c. JStr [c]) s)"
| "own_entries _ = []"

text \<open>
  \<^verbatim>\<open>v.name\<close> and \<^verbatim>\<open>v.folder\<close>: only an object can have these two properties; on any
  other value the read gives \<^verbatim>\<open>undefined\<close>.
\<close>

fun get_prop :: "json \<Rightarrow> string \<Rightarrow> jsval" where
  "get_prop (JObj kvs) k = map_of kvs k"
| "get_prop _ k = None"

definition starts_with :: "string \<Rightarrow> string \<Rightarrow> bool" where
  "starts_with s p \<longleftrightarrow> take (length p) s = p"

section \<open>Keys\<close>

text \<open>The line terminators that \<^verbatim>\<open>.\<close> of a regular expression does not match.\<close>

definition line_terminator :: "char \<Rightarrow> bool" where
  "line_terminator c \<longleftrightarrow> c = CHR 0x0A \<or> c = CHR 0x0D"

text \<open>
  \<^verbatim>\<open>key.match(/^!([^!]+)!(.+)$/)\<close>: the type section is what stands between the first
  two exclamation marks, the id section is the rest; both are non-empty.
\<close>

definition key_match :: "string \<Rightarrow> (string \<times> string) option" where
  "key_match key =
     (case key of
        [] \<Rightarrow> None
      | c # rest \<Rightarrow>
          if c \<noteq> CHR ''!'' then None
          else let typeSection = takeWhile (\<lambda>x. x \<noteq> CHR ''!'') rest;
                   after = dropWhile (\<lambda>x. x \<noteq> CHR ''!'') rest
               in if typeSection = [] then None
                  else (case after of
                          [] \<Rightarrow> None
                        | _ # idSection \<Rightarrow>
                            if idSection \<noteq> [] \<and> \<not> list_ex line_terminator idSection
                            then Some (typeSection, idSection) else None))"

text \<open>\<^verbatim>\<open>s.split('.')\<close>\<close>

fun split_dot :: "string \<Rightarrow> string list" where
  "split_dot [] = [[]]"
| "split_dot (c # cs) =
     (if c = CHR ''.'' then [] # split_dot cs
      else (case split_dot cs of [] \<Rightarrow> [[c]] | p # ps \<Rightarrow> (c # p) # ps))"

text \<open>\<^verbatim>\<open>const [a, b] = parts\<close>: a missing element is \<^verbatim>\<open>undefined\<close>.\<close>

definition first_two :: "string list \<Rightarrow> string option \<times> string option" where
  "first_two parts =
     (case parts of [] \<Rightarrow> (None, None) | [a] \<Rightarrow> (Some a, None) | a # b # _ \<Rightarrow> (Some a, Some b))"

definition truthy_string :: "string option \<Rightarrow> bool" where
  "truthy_string x \<longleftrightarrow> (case x of None \<Rightarrow> False | Some s \<Rightarrow> s \<noteq> [])"

definition template :: "string option \<Rightarrow> string" where
  "template x = (case x of None \<Rightarrow> ''undefined'' | Some s \<Rightarrow> s)"

section \<open>organizeDocuments\<close>

record embedded_entry =
  ekey :: string
  edocument :: json
  echildType :: "string option"
  echildId :: "string option"

type_synonym object = "(string \<times> json) list"
type_synonym top_level = "(string \<times> object) list"
type_synonym embedded_map = "(string \<times> embedded_entry list) list"

text \<open>The body of the first loop of \<^verbatim>\<open>organizeDocuments\<close>.\<close>

definition organize_entry :: "top_level \<times> embedded_map \<Rightarrow> string \<times> json \<Rightarrow> top_level \<times> embedded_map" where
  "organize_entry acc entry =
     (let (topLevelDocuments, embeddedDocuments) = acc; (key, document) = entry
      in if starts_with key ''!folders!'' then acc
         else (case key_match key of
                 None \<Rightarrow> acc
               | Some (typeSection, idSection) \<Rightarrow>
                   if CHR ''.'' \<in> set typeSection then
                     (let (parentType, childType) = first_two (split_dot typeSection);
                          (parentId, childId) = first_two (split_dot idSection)
                      in if truthy_string parentId \<and> truthy_string childId then
                           (let parentKey = ''!'' @ template parentType @ ''!'' @ template parentId;
                                embeddedList =
                                  (case map_of embeddedDocuments parentKey of None \<Rightarrow> [] | Some l \<Rightarrow> l)
                            in (topLevelDocuments,
                                assign parentKey
                                  (embeddedList @
                                     [\<lparr>ekey = key, edocument = document,
                                       echildType = childType, echildId = childId\<rparr>])
                                  embeddedDocuments))
                         else acc)
                   else (assign key (own_entries document) topLevelDocuments, embeddedDocuments)))"

text \<open>The body of the second loop: attach the bodies to the parent, if there is one.\<close>

definition attach_embedded :: "top_level \<Rightarrow> string \<times> embedded_entry list \<Rightarrow> top_level" where
  "attach_embedded topLevelDocuments grp =
     (let (parentKey, embeddedList) = grp
      in case map_of topLevelDocuments parentKey of
           None \<Rightarrow> topLevelDocuments
         | Some parent \<Rightarrow>
             assign parentKey (assign ''embedded'' (JArr (map edocument embeddedList)) parent)
               topLevelDocuments)"

definition organizeDocuments :: "(string \<times> json) list \<Rightarrow> top_level \<times> embedded_map" where
  "organizeDocuments allDocuments =
     (let (topLevelDocuments, embeddedDocuments) = foldl organize_entry ([], []) allDocuments
      in (foldl attach_embedded topLevelDocuments embeddedDocuments, embeddedDocuments))"

section \<open>Folders\<close>

text \<open>
  The loop of \<^verbatim>\<open>extractFolders\<close>: it collects every key that starts with
  \<^verbatim>\<open>!folders\<close>.
\<close>

definition collect_folder :: "object \<Rightarrow> string \<times> json \<Rightarrow> object" where
  "collect_folder folderDocuments entry =
     (let (key, document) = entry
      in if starts_with key ''!folders'' then assign key document folderDocuments
         else folderDocuments)"

definition collect_folders :: "(string \<times> json) list \<Rightarrow> object" where
  "collect_folders documents = foldl collect_folder [] documents"

text \<open>
  The loop of \<^verbatim>\<open>resolveFolderPath\<close>. It runs for ever on a cyclic chain of folders:
  then the value is \<open>None\<close>. The result is the list of path segments (what the source
  joins with the path separator) and the warnings printed on the way.
\<close>

partial_function (option) folder_walk ::
  "object \<Rightarrow> jsval \<Rightarrow> string list \<Rightarrow> (string list \<times> string list) option" where
  "folder_walk folderDocuments currentFolderId folderPath =
     (case currentFolderId of
        None \<Rightarrow> Some (folderPath, [])
      | Some v \<Rightarrow>
          if \<not> truthy (Some v) then Some (folderPath, [])
          else let folderKey = ''!folders!'' @ js_to_string v
               in (case map_of folderDocuments folderKey of
                     None \<Rightarrow> Some (folderPath, [folderKey])
                   | Some folderDoc \<Rightarrow>
                       if \<not> truthy (Some folderDoc) then Some (folderPath, [folderKey])
                       else folder_walk folderDocuments (get_prop folderDoc ''folder'')
                              (sanitizeFilename (get_prop folderDoc ''name'') # folderPath)))"

declare folder_walk.simps [code]

definition resolveFolderPath :: "object \<Rightarrow> object \<Rightarrow> (string list \<times> string list) option" where
  "resolveFolderPath document folderDocuments =
     (if \<not> truthy (map_of document ''folder'') then Some ([], [])
      else folder_walk folderDocuments (map_of document ''folder'') [])"

section \<open>The file system\<close>

text \<open>
  A path is the list of its segments from the root. \<^verbatim>\<open>path.join\<close> drops an empty
  segment and \<^verbatim>\<open>.\<close>, and \<^verbatim>\<open>..\<close> removes the segment before it. A sanitized name
  holds no path separator, so it is one segment.
\<close>

type_synonym path = "string list"

definition norm_step :: "path \<Rightarrow> string \<Rightarrow> path" where
  "norm_step p seg =
     (if seg = [] \<or> seg = ''.'' then p else if seg = ''..'' then butlast p else p @ [seg])"

definition path_join :: "path \<Rightarrow> string list \<Rightarrow> path" where
  "path_join base segs = foldl norm_step base segs"

definition is_prefix :: "path \<Rightarrow> path \<Rightarrow> bool" where
  "is_prefix p q \<longleftrightarrow> take (length p) q = p"

definition prefixes :: "path \<Rightarrow> path list" where
  "prefixes p = map (\<lambda>n. take n p) [1..<Suc (length p)]"

text \<open>
  A file holds the value whose serialization \<^verbatim>\<open>JSON.stringify(v, null, 2)\<close> was written.
  The tree is the list of its nodes, each path once; the root is not listed.
\<close>

datatype node = Dir | File json

type_synonym tree = "(path \<times> node) list"

datatype source = SrcMissing | SrcUnreadable | SrcInvalid | SrcParsed json

datatype error =
    InvalidPack string
  | DbNotFound path
  | ReadFailed path
  | JsonSyntaxError
  | TypeError
  | CreateDirFailed path
  | DeleteFailed path string
  | FsError string path

datatype event =
    FsRm path
  | FsMkdir path
  | FsWrite path json
  | LogDeleted path
  | LogNoPackFolder path
  | LogFolders nat path
  | LogNoFolders
  | WarnMissingFolder string
  | ErrExtract string error
  | LogCount nat
  | LogCompleted path

text \<open>
  \<^verbatim>\<open>extract\<close> calls the asynchronous \<^verbatim>\<open>deletePackFolder\<close> without \<^verbatim>\<open>await\<close>: the
  deletion is a task of its own, with two steps (\<^verbatim>\<open>fs.access\<close>, then \<^verbatim>\<open>fs.rm\<close>), each
  taking effect at some moment while \<^verbatim>\<open>extract\<close> waits for one of its own operations, or
  after \<^verbatim>\<open>extract\<close> has returned.
\<close>

datatype detached_task = NotStarted | AccessPending path | RmPending path | Finished

text \<open>
  The world of a run: the working directory, the database files (a file that is not listed
  is missing), the file tree, what the operating system refuses (\<open>denied\<close>: the paths on
  which \<^verbatim>\<open>mkdir\<close> and \<^verbatim>\<open>writeFile\<close> fail, the
  error codes with which the \<^verbatim>\<open>access\<close> and the \<^verbatim>\<open>rm\<close> of the pack folder fail, if they
  do), the schedule of the detached deletion (\<open>access_at\<close> and \<open>rm_at\<close>: the number of
  file operations of \<^verbatim>\<open>extract\<close> after which the step is due), and what the run has done
  so far: the clock counting the operations of \<^verbatim>\<open>extract\<close>, the events in order, and the
  rejections nobody handles.
\<close>

record world =
  cwd :: path
  db :: "(path \<times> source) list"
  nodes :: tree
  denied :: "path list"
  access_fault :: "string option"
  rm_fault :: "string option"
  access_at :: nat
  rm_at :: nat
  clock :: nat
  detached :: detached_task
  trace :: "event list"
  unhandled :: "error list"

definition emit :: "event \<Rightarrow> world \<Rightarrow> world" where
  "emit e w = w\<lparr>trace := trace w @ [e]\<rparr>"

definition node_at :: "world \<Rightarrow> path \<Rightarrow> node option" where
  "node_at w p = map_of (nodes w) p"

definition source_at :: "world \<Rightarrow> path \<Rightarrow> source" where
  "source_at w p = (case map_of (db w) p of None \<Rightarrow> SrcMissing | Some x \<Rightarrow> x)"

definition is_dir :: "world \<Rightarrow> path \<Rightarrow> bool" where
  "is_dir w p \<longleftrightarrow> p = [] \<or> node_at w p = Some Dir"

definition is_file :: "world \<Rightarrow> path \<Rightarrow> bool" where
  "is_file w p \<longleftrightarrow> (case node_at w p of Some (File c) \<Rightarrow> True | _ \<Rightarrow> False)"

text \<open>The \<^verbatim>\<open>catch\<close> of \<^verbatim>\<open>deletePackFolder\<close>.\<close>

definition delete_catch :: "path \<Rightarrow> string \<Rightarrow> world \<Rightarrow> world" where
  "delete_catch packFolderPath code w =
     (if code = ''ENOENT'' then (emit (LogNoPackFolder packFolderPath) w)\<lparr>detached := Finished\<rparr>
      else w\<lparr>detached := Finished,
             unhandled := unhandled w @ [DeleteFailed packFolderPath code]\<rparr>)"

text \<open>
  One step of the detached \<^verbatim>\<open>deletePackFolder\<close>. A recursive \<^verbatim>\<open>rm\<close> that succeeds
  removes the folder and all below it in one step; one that fails leaves the tree as it is.
\<close>

definition detached_step :: "world \<Rightarrow> world" where
  "detached_step w =
     (case detached w of
        AccessPending p \<Rightarrow>
          (case access_fault w of
             Some code \<Rightarrow> delete_catch p code w
           | None \<Rightarrow> if node_at w p = None then delete_catch p ''ENOENT'' w
                     else w\<lparr>detached := RmPending p\<rparr>)
      | RmPending p \<Rightarrow>
          (case rm_fault w of
             Some code \<Rightarrow> delete_catch p code w
           | None \<Rightarrow>
               emit (LogDeleted p)
                 (emit (FsRm p)
                    (w\<lparr>nodes := filter (\<lambda>(q, n). \<not> is_prefix p q) (nodes w),
                       detached := Finished\<rparr>)))
      | _ \<Rightarrow> w)"

text \<open>What happens while \<^verbatim>\<open>extract\<close> awaits its next file operation.\<close>

definition await_tick :: "world \<Rightarrow> world" where
  "await_tick w =
     (let w1 = (case detached w of
                  AccessPending p \<Rightarrow> if access_at w \<le> clock w then detached_step w else w
                | _ \<Rightarrow> w);
          w2 = (case detached w1 of
                  RmPending p \<Rightarrow> if rm_at w1 \<le> clock w1 then detached_step w1 else w1
                | _ \<Rightarrow> w1)
      in w2\<lparr>clock := Suc (clock w2)\<rparr>)"

text \<open>After \<^verbatim>\<open>extract\<close> has returned, the detached task runs to its end.\<close>

definition drain :: "world \<Rightarrow> world" where
  "drain w = detached_step (detached_step w)"

text \<open>\<^verbatim>\<open>await fs.mkdir(p, { recursive: true })\<close>\<close>

definition fs_mkdir :: "path \<Rightarrow> world \<Rightarrow> world \<times> error option" where
  "fs_mkdir p w =
     (let w1 = await_tick w
      in if p \<in> set (denied w1) then (w1, Some (FsError ''EACCES'' p))
         else if is_file w1 p then (w1, Some (FsError ''EEXIST'' p))
         else if list_ex (is_file w1) (prefixes p) then (w1, Some (FsError ''ENOTDIR'' p))
         else (emit (FsMkdir p)
                 (w1\<lparr>nodes := foldl (\<lambda>t q. assign q Dir t) (nodes w1) (prefixes p)\<rparr>),
               None))"

text \<open>\<^verbatim>\<open>await fs.writeFile(p, JSON.stringify(v, null, 2), 'utf8')\<close>\<close>

definition fs_writeFile :: "path \<Rightarrow> json \<Rightarrow> world \<Rightarrow> world \<times> error option" where
  "fs_writeFile p v w =
     (let w1 = await_tick w
      in if p \<in> set (denied w1) then (w1, Some (FsError ''EACCES'' p))
         else if p = [] \<or> node_at w1 p = Some Dir then (w1, Some (FsError ''EISDIR'' p))
         else if \<not> is_dir w1 (butlast p) then (w1, Some (FsError ''ENOENT'' p))
         else (emit (FsWrite p v) (w1\<lparr>nodes := assign p (File v) (nodes w1)\<rparr>), None))"

section \<open>The converter\<close>

definition AVAILABLE_PACKS :: "string list" where
  "AVAILABLE_PACKS = [''actors'', ''items'', ''macros'', ''rollTables'']"

definition validatePackName :: "string \<Rightarrow> error option" where
  "validatePackName packName =
     (if packName \<in> set AVAILABLE_PACKS then None else Some (InvalidPack packName))"

record converter =
  packName :: string
  dbFile :: path
  outputDir :: path

definition getPackPaths :: "path \<Rightarrow> string \<Rightarrow> path \<times> path" where
  "getPackPaths wd name = (wd @ [''packs'', name @ ''.db''], wd @ [''packsrc'', name])"

text \<open>The constructor; the pack name defaults to \<^verbatim>\<open>actors\<close>.\<close>

definition new_dbConvert :: "world \<Rightarrow> string option \<Rightarrow> error + converter" where
  "new_dbConvert w arg =
     (let name = (case arg of None \<Rightarrow> ''actors'' | Some n \<Rightarrow> n)
      in case validatePackName name of
           Some e \<Rightarrow> Inl e
         | None \<Rightarrow>
             (let (f, d) = getPackPaths (cwd w) name
              in Inr \<lparr>packName = name, dbFile = f, outputDir = d\<rparr>))"

text \<open>
  The call \<^verbatim>\<open>this.deletePackFolder(this.packName)\<close> of \<^verbatim>\<open>extract\<close>, which is not
  awaited: the part before the first \<^verbatim>\<open>await\<close> runs, the rest is the detached task, and
  a failure is a rejection of a promise that nobody holds.
\<close>

definition spawn_deletePackFolder :: "string \<Rightarrow> world \<Rightarrow> world" where
  "spawn_deletePackFolder name w =
     (case validatePackName name of
        Some e \<Rightarrow> w\<lparr>unhandled := unhandled w @ [e]\<rparr>
      | None \<Rightarrow> w\<lparr>detached := AccessPending (cwd w @ [''packsrc'', name])\<rparr>)"

text \<open>\<^verbatim>\<open>extractFolders\<close>; \<^verbatim>\<open>Object.entries(null)\<close> throws a TypeError.\<close>

definition extractFolders :: "converter \<Rightarrow> json \<Rightarrow> world \<Rightarrow> world \<times> (error + object)" where
  "extractFolders c documents w =
     (if documents = JNull then (w, Inl TypeError)
      else let folderDocuments = collect_folders (own_entries documents)
           in if folderDocuments \<noteq> [] then
                (let foldersFilePath = path_join (outputDir c) [''_folders.json'']
                 in case fs_writeFile foldersFilePath (JObj folderDocuments) w of
                      (w1, Some e) \<Rightarrow> (w1, Inl e)
                    | (w1, None) \<Rightarrow>
                        (emit (LogFolders (length folderDocuments) foldersFilePath) w1,
                         Inr folderDocuments))
              else (emit LogNoFolders w, Inr folderDocuments))"

text \<open>
  The body of the loop of \<^verbatim>\<open>extractDocuments\<close>, with its \<^verbatim>\<open>try\<close> and \<^verbatim>\<open>catch\<close>. The
  value is \<open>None\<close> when the walk through the folders does not end.
\<close>

definition extract_document ::
  "converter \<Rightarrow> object \<Rightarrow> world \<times> nat \<Rightarrow> string \<times> object \<Rightarrow> (world \<times> nat) option" where
  "extract_document c folderDocuments acc entry =
     (let (w, extractedCount) = acc; (key, document) = entry
      in case resolveFolderPath document folderDocuments of
           None \<Rightarrow> None
         | Some (folderPath, warnings) \<Rightarrow>
             (let w0 = foldl (\<lambda>v k. emit (WarnMissingFolder k) v) w warnings;
                  sanitizedName = sanitizeFilename (map_of document ''name'');
                  filename = sanitizedName @ ''.json'';
                  fullFolderPath = path_join (outputDir c) folderPath;
                  fullFilePath = path_join fullFolderPath [filename]
              in case fs_mkdir fullFolderPath w0 of
                   (w1, Some e) \<Rightarrow> Some (emit (ErrExtract key e) w1, extractedCount)
                 | (w1, None) \<Rightarrow>
                     (case fs_writeFile fullFilePath (JObj document) w1 of
                        (w2, Some e) \<Rightarrow> Some (emit (ErrExtract key e) w2, extractedCount)
                      | (w2, None) \<Rightarrow> Some (w2, Suc extractedCount))))"

text \<open>A \<^verbatim>\<open>for\<close> loop whose body may fail to end: the first \<open>None\<close> is the value.\<close>

fun for_each :: "('s \<Rightarrow> 'a \<Rightarrow> 's option) \<Rightarrow> 'a list \<Rightarrow> 's \<Rightarrow> 's option" where
  "for_each body [] s = Some s"
| "for_each body (x # xs) s = Option.bind (body s x) (for_each body xs)"

definition extractDocuments ::
  "converter \<Rightarrow> (string \<times> json) list \<Rightarrow> object \<Rightarrow> world \<Rightarrow> world option" where
  "extractDocuments c allDocuments folderDocuments w =
     (let (topLevelDocuments, embeddedDocuments) = organizeDocuments allDocuments
      in case for_each (extract_document c folderDocuments) topLevelDocuments (w, 0) of
           None \<Rightarrow> None
         | Some (w1, extractedCount) \<Rightarrow> Some (emit (LogCount extractedCount) w1))"

text \<open>
  \<^verbatim>\<open>extract(dbFilePath)\<close> (\<open>extract\<close> is a command name of Isabelle, hence the suffix): the world when the promise of \<^verbatim>\<open>extract\<close> settles, and
  whether it is fulfilled (\<open>Inr ()\<close>) or rejected with an error.
\<close>

definition extract_pack :: "converter \<Rightarrow> path option \<Rightarrow> world \<Rightarrow> (world \<times> (error + unit)) option" where
  "extract_pack c dbFilePath w =
     (let file = (case dbFilePath of None \<Rightarrow> dbFile c | Some p \<Rightarrow> if p = [] then dbFile c else p)
      in if source_at w file = SrcMissing then Some (w, Inl (DbNotFound file))
         else let w1 = spawn_deletePackFolder (packName c) w;
                  w2 = await_tick w1
              in (case source_at w2 file of
                    SrcMissing \<Rightarrow> Some (w2, Inl (ReadFailed file))
                  | SrcUnreadable \<Rightarrow> Some (w2, Inl (ReadFailed file))
                  | SrcInvalid \<Rightarrow> Some (w2, Inl JsonSyntaxError)
                  | SrcParsed documents \<Rightarrow>
                      (case fs_mkdir (outputDir c) w2 of
                         (w3, Some e) \<Rightarrow> Some (w3, Inl (CreateDirFailed (outputDir c)))
                       | (w3, None) \<Rightarrow>
                           (case extractFolders c documents w3 of
                              (w4, Inl e) \<Rightarrow> Some (w4, Inl e)
                            | (w4, Inr folderDocuments) \<Rightarrow>
                                (case extractDocuments c (own_entries documents) folderDocuments w4 of
                                   None \<Rightarrow> None
                                 | Some w5 \<Rightarrow> Some (emit (LogCompleted file) w5, Inr ()))))))"

text \<open>A whole run: \<^verbatim>\<open>extract\<close>, then what is left of the detached deletion.\<close>

definition run_extract :: "converter \<Rightarrow> path option \<Rightarrow> world \<Rightarrow> (world \<times> (error + unit)) option" where
  "run_extract c dbFilePath w =
     (case extract_pack c dbFilePath w of None \<Rightarrow> None | Some (w', r) \<Rightarrow> Some (drain w', r))"

text \<open>The world in which the next run starts: the same tree, nothing done yet.\<close>

definition fresh_run :: "world \<Rightarrow> world" where
  "fresh_run w = w\<lparr>clock := 0, detached := NotStarted, trace := [], unhandled := []\<rparr>"

text \<open>The content of the output directory of the pack.\<close>

definition output_contents :: "converter \<Rightarrow> world \<Rightarrow> tree" where
  "output_contents c w = filter (\<lambda>(q, n). is_prefix (outputDir c) q) (nodes w)"

section \<open>Concrete runs\<close>

text \<open>
  A world for the pack \<^verbatim>\<open>actors\<close> in the working directory \<^verbatim>\<open>/repo\<close>: the database
  parses to the given value, the tree is the given one, nothing is refused, and both steps
  of the deletion are due before the first operation of \<^verbatim>\<open>extract\<close> ends.
\<close>

definition stored :: "json \<Rightarrow> tree \<Rightarrow> world" where
  "stored documents t =
     \<lparr>cwd = [''repo''],
      db = [([''repo'', ''packs'', ''actors.db''], SrcParsed documents)],
      nodes = t,
      denied = [], access_fault = None, rm_fault = None,
      access_at = 0, rm_at = 0, clock = 0, detached = NotStarted, trace = [],
      unhandled = []\<rparr>"

definition actors :: converter where
  "actors = \<lparr>packName = ''actors'', dbFile = [''repo'', ''packs'', ''actors.db''],
              outputDir = [''repo'', ''packsrc'', ''actors'']\<rparr>"

text \<open>The pack folder, empty, and the pack folder with a file of an older database.\<close>

definition pack_tree :: tree where
  "pack_tree = [([''repo''], Dir), ([''repo'', ''packsrc''], Dir),
                ([''repo'', ''packsrc'', ''actors''], Dir)]"

definition old_tree :: tree where
  "old_tree = pack_tree @ [([''repo'', ''packsrc'', ''actors'', ''Old.json''], File JNull)]"

text \<open>A database with one actor, and one with two actors of the same name and an item.\<close>

definition one_actor :: json where
  "one_actor = JObj [(''!actor!P1'', JObj [(''name'', JStr ''A'')])]"

definition same_names :: json where
  "same_names = JObj [(''!actor!P1'', JObj [(''name'', JStr ''A'')]),
                      (''!actor!P2'', JObj [(''name'', JStr ''A'')]),
                      (''!actor.item!P1.C1'', JObj [(''name'', JStr ''c'')])]"

text \<open>
  The next run on the same database, in the tree the run before has left, with \<^verbatim>\<open>fs.rm\<close>
  due after \<open>k\<close> file operations of \<^verbatim>\<open>extract\<close>.
\<close>

definition rerun ::
  "converter \<Rightarrow> nat \<Rightarrow> (world \<times> (error + unit)) option \<Rightarrow> (world \<times> (error + unit)) option" where
  "rerun c k x =
     (case x of None \<Rightarrow> None
      | Some (w, r) \<Rightarrow> run_extract c None ((fresh_run w)\<lparr>rm_at := k\<rparr>))"

definition output_of :: "converter \<Rightarrow> (world \<times> (error + unit)) option \<Rightarrow> tree option" where
  "output_of c x = (case x of None \<Rightarrow> None | Some (w, r) \<Rightarrow> Some (output_contents c w))"

text \<open>What a run shows: how the promise settled, the events, the unhandled rejections.\<close>

definition outcome ::
  "(world \<times> (error + unit)) option \<Rightarrow> ((error + unit) \<times> event list \<times> error list) option" where
  "outcome x = map_option (\<lambda>(w, r). (r, trace w, unhandled w)) x"

text \<open>
  The walk of \<^verbatim>\<open>resolveFolderPath\<close> from the reference \<open>cur\<close> passes the folder documents
  \<open>fs\<close>, in this order, and arrives at the reference \<open>last\<close>.
\<close>

fun follows :: "object \<Rightarrow> jsval \<Rightarrow> json list \<Rightarrow> jsval \<Rightarrow> bool" where
  "follows fd cur [] final = (cur = final)"
| "follows fd cur (f # fs) final =
     (case cur of
        None \<Rightarrow> False
      | Some v \<Rightarrow> truthy (Some v) \<and> map_of fd (''!folders!'' @ js_to_string v) = Some f
                  \<and> truthy (Some f) \<and> follows fd (get_prop f ''folder'') fs final)"

definition folder_name :: "json \<Rightarrow> string" where
  "folder_name f = sanitizeFilename (get_prop f ''name'')"

definition target_dir :: "converter \<Rightarrow> string list \<Rightarrow> path" where
  "target_dir c folderPath = path_join (outputDir c) folderPath"

definition target_file :: "converter \<Rightarrow> object \<Rightarrow> string list \<Rightarrow> path" where
  "target_file c document folderPath =
     path_join (target_dir c folderPath) [sanitizeFilename (map_of document ''name'') @ ''.json'']"

definition warned :: "string list \<Rightarrow> world \<Rightarrow> world" where
  "warned warnings w = foldl (\<lambda>v k. emit (WarnMissingFolder k) v) w warnings"

fun is_write :: "event \<Rightarrow> bool" where
  "is_write (FsWrite p v) = True"
| "is_write _ = False"

fun is_failure :: "event \<Rightarrow> bool" where
  "is_failure (ErrExtract k e) = True"
| "is_failure _ = False"

definition background :: "event list \<Rightarrow> bool" where
  "background es \<longleftrightarrow> list_all (\<lambda>e. \<not> is_write e \<and> \<not> is_failure e) es"

definition continues :: "world \<Rightarrow> world \<Rightarrow> bool" where
  "continues w w' \<longleftrightarrow> (\<exists>es. trace w' = trace w @ es \<and> background es)"

definition idle :: "world \<Rightarrow> bool" where
  "idle w \<longleftrightarrow> detached w = NotStarted \<or> detached w = Finished"

definition goblin :: object where
  "goblin = [(''name'', JStr ''Goblin''), (''folder'', JStr ''F1'')]"

definition monsters :: json where
  "monsters = JObj [(''name'', JStr ''Monsters''), (''folder'', JStr ''F9'')]"

definition top_folder :: json where
  "top_folder = JObj [(''name'', JStr ''Top Level''), (''folder'', JNull)]"

definition orc :: object where
  "orc = [(''name'', JStr ''Orc''), (''folder'', JStr ''F2'')]"

definition some_folders :: object where
  "some_folders = [(''!folders!F1'', monsters), (''!folders!F2'', top_folder)]"

text \<open>The file to which the loop writes a document.\<close>

definition file_of :: "converter \<Rightarrow> object \<Rightarrow> object \<Rightarrow> path" where
  "file_of c fd d =
     (case resolveFolderPath d fd of None \<Rightarrow> [] | Some (fp, ws) \<Rightarrow> target_file c d fp)"

text \<open>Two actors, and a world that refuses the file of the first.\<close>

definition two_actors :: "(string \<times> json) list" where
  "two_actors = [(''!actor!P1'', JObj [(''name'', JStr ''A'')]),
                 (''!actor!P2'', JObj [(''name'', JStr ''B'')])]"

definition refusing :: world where
  "refusing = (stored JNull pack_tree)\<lparr>denied := [[''repo'', ''packsrc'', ''actors'', ''A.json'']]\<rparr>"

text \<open>
  The two ways in which the first loop of \<^verbatim>\<open>organizeDocuments\<close> takes a key: as a
  top-level document, or as an embedded document of the parent key it computes.
\<close>

definition is_top_level :: "string \<Rightarrow> bool" where
  "is_top_level key \<longleftrightarrow>
     \<not> starts_with key ''!folders!''
     \<and> (case key_match key of
          None \<Rightarrow> False
        | Some (typeSection, idSection) \<Rightarrow> CHR ''.'' \<notin> set typeSection)"

definition embedded_parent :: "string \<Rightarrow> string option" where
  "embedded_parent key =
     (if starts_with key ''!folders!'' then None
      else case key_match key of
             None \<Rightarrow> None
           | Some (typeSection, idSection) \<Rightarrow>
               if CHR ''.'' \<in> set typeSection then
                 (let (parentType, childType) = first_two (split_dot typeSection);
                      (parentId, childId) = first_two (split_dot idSection)
                  in if truthy_string parentId \<and> truthy_string childId
                     then Some (''!'' @ template parentType @ ''!'' @ template parentId)
                     else None)
               else None)"

text \<open>The shallow copies of the top-level records of a store, in the order of the store.\<close>

definition copies :: "(string \<times> json) list \<Rightarrow> top_level" where
  "copies store = map (\<lambda>(k, d). (k, own_entries d)) (filter (\<lambda>(k, d). is_top_level k) store)"

text \<open>The top-level documents with the body \<open>cd\<close> attached to the one at \<open>pk\<close>.\<close>

definition attached :: "string \<Rightarrow> json \<Rightarrow> top_level \<Rightarrow> top_level" where
  "attached pk cd tops =
     map (\<lambda>(k, v). (k, if k = pk then assign ''embedded'' (JArr [cd]) v else v)) tops"

text \<open>An actor with an item and a second actor, and an item without its actor.\<close>

definition family :: "(string \<times> json) list" where
  "family = [(''!actor!P1'', JObj [(''name'', JStr ''A'')]),
             (''!actor.item!P1.C1'', JObj [(''name'', JStr ''c'')]),
             (''!actor!P2'', JObj [(''name'', JStr ''B'')])]"

definition orphan :: "(string \<times> json) list" where
  "orphan = [(''!actor!P2'', JObj [(''name'', JStr ''B'')]),
             (''!actor.item!P1.C1'', JObj [(''name'', JStr ''c'')])]"

text \<open>The folder in which the loop writes a document.\<close>

definition dir_of :: "converter \<Rightarrow> object \<Rightarrow> object \<Rightarrow> path" where
  "dir_of c fd d =
     (case resolveFolderPath d fd of None \<Rightarrow> [] | Some (fp, ws) \<Rightarrow> target_dir c fp)"

text \<open>The operating system refuses the folder or the file of a document.\<close>

definition refused :: "world \<Rightarrow> converter \<Rightarrow> object \<Rightarrow> object \<Rightarrow> bool" where
  "refused w c fd d \<longleftrightarrow>
     dir_of c fd d \<in> set (denied w) \<or> file_of c fd d \<in> set (denied w)"

text \<open>
  The documents do not stand in each other's way, nor does the tree in theirs: no two
  have the same file, no file of a document is a folder of the tree or a folder on the
  way to a document, and no folder on the way to a document is a file of the tree.
\<close>

definition clash_free :: "converter \<Rightarrow> object \<Rightarrow> world \<Rightarrow> top_level \<Rightarrow> bool" where
  "clash_free c fd w docs \<longleftrightarrow>
     distinct (map (\<lambda>(k, d). file_of c fd d) docs)
     \<and> (\<forall>(k, d)\<in>set docs.
           \<not> is_file w (dir_of c fd d)
           \<and> \<not> list_ex (is_file w) (prefixes (dir_of c fd d))
           \<and> node_at w (file_of c fd d) \<noteq> Some Dir
           \<and> (\<forall>(k', d')\<in>set docs. file_of c fd d \<notin> set (prefixes (dir_of c fd d'))))"

text \<open>
  What the file system does and answers when, in the world \<open>w\<close>, the folder of a
  document is made and its file is written.
\<close>

definition fs_answer :: "converter \<Rightarrow> object \<Rightarrow> object \<Rightarrow> world \<Rightarrow> world \<times> error option" where
  "fs_answer c fd d w =
     (case resolveFolderPath d fd of
        None \<Rightarrow> (w, None)
      | Some (fp, ws) \<Rightarrow>
          (case fs_mkdir (target_dir c fp) (warned ws w) of
             (w1, Some e) \<Rightarrow> (w1, Some e)
           | (w1, None) \<Rightarrow> fs_writeFile (target_file c d fp) (JObj d) w1))"

text \<open>
  The two parts of \<open>clash_free\<close> apart from the distinct files: the tree is not in the
  way of the documents, and no file of a document is a folder on the way to a document.
\<close>

definition tidy :: "converter \<Rightarrow> object \<Rightarrow> world \<Rightarrow> top_level \<Rightarrow> bool" where
  "tidy c fd w docs \<longleftrightarrow>
     (\<forall>(k, d)\<in>set docs.
         \<not> is_file w (dir_of c fd d)
         \<and> \<not> list_ex (is_file w) (prefixes (dir_of c fd d))
         \<and> node_at w (file_of c fd d) \<noteq> Some Dir)"

definition apart :: "converter \<Rightarrow> object \<Rightarrow> top_level \<Rightarrow> bool" where
  "apart c fd docs \<longleftrightarrow>
     (\<forall>(k, d)\<in>set docs. \<forall>(k', d')\<in>set docs.
         file_of c fd d \<notin> set (prefixes (dir_of c fd d')))"

section \<open>Properties of sanitizeFilename\<close>

lemma underscore_valid: "\<not> invalid_char underscore"
  by (simp add: invalid_char_def js_whitespace_def)

lemma replace_invalid_valid: "c \<in> set (replace_invalid s) \<Longrightarrow> \<not> invalid_char c"
proof (induction s rule: replace_invalid.induct)
  case 1
  then show ?case by simp
next
  case (2 x xs)
  then show ?case
    by (auto simp: underscore_valid split: if_splits)
qed

lemma replace_invalid_id: "\<forall>c\<in>set s. \<not> invalid_char c \<Longrightarrow> replace_invalid s = s"
  by (induction s) auto

lemma collapse_subset: "set (collapse_underscores s) \<subseteq> set s"
proof (induction s rule: collapse_underscores.induct)
  case (3 c d cs)
  have "set (dropWhile is_underscore cs) \<subseteq> set cs"
    by (meson set_dropWhileD subsetI)
  with 3 show ?case
    by (auto simp: is_underscore_def)
qed simp_all

lemma hd_dropWhile_us: "dropWhile is_underscore cs = x # xs \<Longrightarrow> \<not> is_underscore x"
  using hd_dropWhile[of is_underscore cs] by auto

lemma collapse_hd:
  "collapse_underscores s = x # xs \<Longrightarrow> s \<noteq> [] \<and> hd s = x"
  by (induction s rule: collapse_underscores.induct) (auto simp: is_underscore_def split: if_splits)

lemma collapse_nonempty: "s \<noteq> [] \<Longrightarrow> collapse_underscores s \<noteq> []"
  by (induction s rule: collapse_underscores.induct) auto

lemma collapse_no_double: "no_double_underscore (collapse_underscores s)"
proof (induction s rule: collapse_underscores.induct)
  case (3 c d cs)
  show ?case
  proof (cases "is_underscore c \<and> is_underscore d")
    case True
    let ?r = "collapse_underscores (dropWhile is_underscore cs)"
    have ih: "no_double_underscore ?r" using 3(1) True by simp
    show ?thesis
    proof (cases ?r)
      case Nil
      with True show ?thesis by (simp add: is_underscore_def)
    next
      case (Cons y ys)
      then have "dropWhile is_underscore cs \<noteq> [] \<and> hd (dropWhile is_underscore cs) = y"
        by (rule collapse_hd)
      then have "\<not> is_underscore y"
        using hd_dropWhile[of is_underscore cs] by auto
      with True ih Cons show ?thesis by (simp add: is_underscore_def)
    qed
  next
    case False
    let ?r = "collapse_underscores (d # cs)"
    have ih: "no_double_underscore ?r" using 3(2) False by simp
    have "?r \<noteq> []" by (rule collapse_nonempty) simp
    then obtain y ys where r: "?r = y # ys"
      by (cases ?r) auto
    then have "y = d" using collapse_hd[OF r] by simp
    with False ih r show ?thesis by auto
  qed
qed simp_all

lemma collapse_id: "no_double_underscore s \<Longrightarrow> collapse_underscores s = s"
  by (induction s rule: collapse_underscores.induct) auto

lemma no_double_append_right: "no_double_underscore (xs @ ys) \<Longrightarrow> no_double_underscore ys"
proof (induction xs)
  case (Cons x xs)
  then show ?case by (cases "xs @ ys") auto
qed simp

lemma no_double_append_left: "no_double_underscore (xs @ ys) \<Longrightarrow> no_double_underscore xs"
proof (induction xs rule: no_double_underscore.induct)
  case (3 c d cs)
  then show ?case by auto
qed simp_all

lemma no_double_dropWhile: "no_double_underscore s \<Longrightarrow> no_double_underscore (dropWhile P s)"
  using no_double_append_right[of "takeWhile P s" "dropWhile P s"] by simp

lemma rev_dropWhile_rev_prefix: "rev (dropWhile P (rev s)) @ rev (takeWhile P (rev s)) = s"
  by (metis rev_append rev_rev_ident takeWhile_dropWhile_id)

lemma no_double_strip: "no_double_underscore s \<Longrightarrow> no_double_underscore (strip_underscores s)"
  unfolding strip_underscores_def
  using no_double_append_left[of "rev (dropWhile is_underscore (rev (dropWhile is_underscore s)))"
      "rev (takeWhile is_underscore (rev (dropWhile is_underscore s)))"]
  by (simp add: rev_dropWhile_rev_prefix no_double_dropWhile)

lemma strip_subset: "set (strip_underscores s) \<subseteq> set s"
  unfolding strip_underscores_def
  by (metis (no_types, lifting) set_dropWhileD set_rev subsetI)

text \<open>Trimming at both ends with a predicate.\<close>

lemma trim_ends_id:
  "s \<noteq> [] \<Longrightarrow> \<not> P (hd s) \<Longrightarrow> \<not> P (last s) \<Longrightarrow> rev (dropWhile P (rev (dropWhile P s))) = s"
proof -
  assume s: "s \<noteq> []" and h: "\<not> P (hd s)" and l: "\<not> P (last s)"
  have 1: "dropWhile P s = s"
    using s h by (cases s) auto
  have "rev s \<noteq> []" "\<not> P (hd (rev s))"
    using s l by (simp_all add: hd_rev)
  then have 2: "dropWhile P (rev s) = rev s"
    by (cases "rev s") auto
  show ?thesis by (simp add: 1 2)
qed

lemma trim_ends_hd_last:
  assumes "rev (dropWhile P (rev (dropWhile P s))) = r" "r \<noteq> []"
  shows "\<not> P (hd r) \<and> \<not> P (last r)"
proof -
  let ?a = "dropWhile P s"
  have a: "?a \<noteq> []"
  proof
    assume e: "?a = []"
    have "r = []" using assms(1) unfolding e by simp
    with assms show False by simp
  qed
  have ha: "\<not> P (hd ?a)" using a hd_dropWhile by blast
  let ?b = "dropWhile P (rev ?a)"
  have b: "?b \<noteq> []" using assms by fastforce
  have hb: "\<not> P (hd ?b)" using b hd_dropWhile by blast
  have "last r = hd ?b" using assms b by (metis last_rev rev_rev_ident)
  moreover have "hd r = hd ?a"
  proof -
    have "?a = r @ rev (takeWhile P (rev ?a))"
      using rev_dropWhile_rev_prefix[of P ?a] assms by simp
    with assms show ?thesis by (metis hd_append2)
  qed
  ultimately show ?thesis using ha hb by simp
qed


lemma sanitize_string_cases:
  "sanitize_string s = ''unnamed'' \<or>
   (sanitize_string s \<noteq> [] \<and> (\<forall>c\<in>set (sanitize_string s). \<not> invalid_char c)
    \<and> no_double_underscore (sanitize_string s)
    \<and> \<not> is_underscore (hd (sanitize_string s)) \<and> \<not> is_underscore (last (sanitize_string s)))"
proof -
  let ?a = "replace_invalid s"
  let ?b = "collapse_underscores ?a"
  let ?c = "strip_underscores ?b"
  have valid_c: "\<forall>x\<in>set ?c. \<not> invalid_char x"
    using replace_invalid_valid collapse_subset strip_subset by blast
  have nd: "no_double_underscore ?c"
    by (simp add: collapse_no_double no_double_strip)
  show ?thesis
  proof (cases "?c = []")
    case True
    then show ?thesis by (simp add: sanitize_string_def js_trim_def)
  next
    case False
    have ends: "\<not> is_underscore (hd ?c) \<and> \<not> is_underscore (last ?c)"
      using trim_ends_hd_last[OF _ False, of is_underscore ?b] by (simp add: strip_underscores_def)
    have "\<not> js_whitespace (hd ?c)" "\<not> js_whitespace (last ?c)"
      using valid_c False by (auto simp: invalid_char_def)
    then have "js_trim ?c = ?c"
      unfolding js_trim_def using False by (simp add: trim_ends_id)
    then have "sanitize_string s = ?c"
      using False by (simp add: sanitize_string_def)
    with False valid_c nd ends show ?thesis by simp
  qed
qed

lemma sanitize_string_fixed:
  assumes "r \<noteq> []" "\<forall>c\<in>set r. \<not> invalid_char c" "no_double_underscore r"
    "\<not> is_underscore (hd r)" "\<not> is_underscore (last r)"
  shows "sanitize_string r = r"
proof -
  have 1: "replace_invalid r = r" using assms(2) by (rule replace_invalid_id)
  have 2: "collapse_underscores r = r" using assms(3) by (rule collapse_id)
  have 3: "strip_underscores r = r"
    unfolding strip_underscores_def using assms by (simp add: trim_ends_id)
  have "\<not> js_whitespace (hd r)" "\<not> js_whitespace (last r)"
    using assms(1,2) by (auto simp: invalid_char_def)
  then have 4: "js_trim r = r"
    unfolding js_trim_def using assms(1) by (simp add: trim_ends_id)
  show ?thesis using assms(1) by (simp add: sanitize_string_def 1 2 3 4)
qed

lemma sanitize_unnamed: "sanitize_string ''unnamed'' = ''unnamed''"
  by (simp add: sanitize_string_def js_trim_def strip_underscores_def invalid_char_def
      js_whitespace_def is_underscore_def)

lemma sanitize_string_nonempty: "sanitize_string s \<noteq> []"
  by (simp add: sanitize_string_def Let_def)

lemma sanitize_string_idem: "sanitize_string (sanitize_string s) = sanitize_string s"
  using sanitize_string_cases[of s] sanitize_unnamed sanitize_string_fixed by metis

lemma replace_invalid_all_underscores:
  "\<forall>c\<in>set s. invalid_char c \<or> is_underscore c \<Longrightarrow>
   \<forall>c\<in>set (replace_invalid s). is_underscore c"
proof (induction s rule: replace_invalid.induct)
  case 1
  then show ?case by simp
next
  case (2 c cs)
  have sub: "set (dropWhile invalid_char cs) \<subseteq> set cs"
    by (meson set_dropWhileD subsetI)
  show ?case
  proof (cases "invalid_char c")
    case True
    then have "\<forall>x\<in>set (replace_invalid (dropWhile invalid_char cs)). is_underscore x"
      using 2(1) 2(3) sub by auto
    with True show ?thesis by (simp add: is_underscore_def)
  next
    case False
    then have "\<forall>x\<in>set (replace_invalid cs). is_underscore x"
      using 2(2) 2(3) by auto
    with False 2(3) show ?thesis by simp
  qed
qed

lemma sanitize_string_reduces:
  assumes "\<forall>c\<in>set s. invalid_char c \<or> is_underscore c"
  shows "sanitize_string s = ''unnamed''"
proof -
  let ?b = "collapse_underscores (replace_invalid s)"
  have "\<forall>c\<in>set ?b. is_underscore c"
    using replace_invalid_all_underscores[OF assms] collapse_subset by blast
  then have d: "dropWhile is_underscore ?b = []"
    by (metis dropWhile_eq_Nil_conv)
  have "strip_underscores ?b = []"
    unfolding strip_underscores_def d by simp
  then show ?thesis
    by (simp add: sanitize_string_def js_trim_def)
qed

text \<open>
  C6. The sanitization is idempotent: sanitizing a sanitized name gives it back, for every
  string; the empty string, \<^verbatim>\<open>null\<close>, \<^verbatim>\<open>undefined\<close> and every other value that is
  not a string sanitize to \<^verbatim>\<open>unnamed\<close>.
\<close>

theorem sanitizeFilename_idempotent:
  "sanitizeFilename (Some (JStr (sanitizeFilename (Some (JStr x))))) = sanitizeFilename (Some (JStr x))
   \<and> sanitizeFilename (Some (JStr [])) = ''unnamed''
   \<and> sanitizeFilename (Some JNull) = ''unnamed''
   \<and> sanitizeFilename None = ''unnamed''
   \<and> sanitizeFilename (Some (JBool b)) = ''unnamed''
   \<and> sanitizeFilename (Some (JNum n)) = ''unnamed''
   \<and> sanitizeFilename (Some (JArr xs)) = ''unnamed''
   \<and> sanitizeFilename (Some (JObj kvs)) = ''unnamed''"
  by (simp add: sanitizeFilename_def sanitize_string_nonempty sanitize_string_idem sanitize_unnamed)

text \<open>
  C10. For every argument, a string or not, the sanitized name is not empty, so the file
  name built from it is never the bare \<^verbatim>\<open>.json\<close>; a string made only of replaced
  characters and underscores (slashes, white space, underscores) gives \<^verbatim>\<open>unnamed\<close>.
\<close>

theorem sanitizeFilename_nonempty:
  "sanitizeFilename v \<noteq> []
   \<and> sanitizeFilename v @ ''.json'' \<noteq> ''.json''
   \<and> ((\<forall>c\<in>set s. invalid_char c \<or> is_underscore c) \<longrightarrow>
        sanitizeFilename (Some (JStr s)) = ''unnamed'')"
proof -
  have ne: "sanitizeFilename v \<noteq> []"
    by (simp add: sanitizeFilename_def sanitize_string_nonempty
        split: option.splits json.splits)
  have "(\<forall>c\<in>set s. invalid_char c \<or> is_underscore c) \<longrightarrow>
        sanitizeFilename (Some (JStr s)) = ''unnamed''"
    by (simp add: sanitizeFilename_def sanitize_string_reduces)
  with ne show ?thesis by simp
qed

theorem sanitizeFilename_nonempty_witness:
  "list_all (\<lambda>c. invalid_char c \<or> is_underscore c) ''/ _ //''
   \<and> sanitizeFilename (Some (JStr ''/ _ //'')) = ''unnamed''
   \<and> sanitizeFilename (Some (JStr ''/ _ //'')) @ ''.json'' = ''unnamed.json''"
  using sanitizeFilename_nonempty [of "Some (JStr ''/ _ //'')" "''/ _ //''"]
  by (simp add: invalid_char_def js_whitespace_def is_underscore_def)

section \<open>The two prefixes of folder keys\<close>

text \<open>
  C3. A key is a folder document, written to \<^verbatim>\<open>_folders.json\<close> and kept out of the
  content and embedded partition, exactly when it starts with \<^verbatim>\<open>!folders!\<close>. The code
  differs at the store with the one key \<^verbatim>\<open>!foldersX!a\<close>, which has not that prefix:
  \<^verbatim>\<open>extractFolders\<close> tests the prefix \<^verbatim>\<open>!folders\<close>, collects the record and writes
  \<^verbatim>\<open>_folders.json\<close>, and \<^verbatim>\<open>organizeDocuments\<close> takes the same record as a top-level
  document, written as \<^verbatim>\<open>N.json\<close>.
\<close>

theorem folder_prefix_mismatch:
  "\<not> starts_with ''!foldersX!a'' ''!folders!''
   \<and> collect_folders [(''!foldersX!a'', JObj [(''name'', JStr ''N'')])]
       = [(''!foldersX!a'', JObj [(''name'', JStr ''N'')])]
   \<and> fst (organizeDocuments [(''!foldersX!a'', JObj [(''name'', JStr ''N'')])])
       = [(''!foldersX!a'', [(''name'', JStr ''N'')])]
   \<and> outcome (run_extract actors None
        (stored (JObj [(''!foldersX!a'', JObj [(''name'', JStr ''N'')])]) []))
       = Some (Inr (),
          [LogNoPackFolder [''repo'', ''packsrc'', ''actors''],
           FsMkdir [''repo'', ''packsrc'', ''actors''],
           FsWrite [''repo'', ''packsrc'', ''actors'', ''_folders.json'']
             (JObj [(''!foldersX!a'', JObj [(''name'', JStr ''N'')])]),
           LogFolders 1 [''repo'', ''packsrc'', ''actors'', ''_folders.json''],
           FsMkdir [''repo'', ''packsrc'', ''actors''],
           FsWrite [''repo'', ''packsrc'', ''actors'', ''N.json''] (JObj [(''name'', JStr ''N'')]),
           LogCount 1, LogCompleted [''repo'', ''packs'', ''actors.db'']],
          [])"
  by code_simp

text \<open>
  C7. A record whose key has a dot in its type section and lacks one of the two halves of
  its id section is dropped: written to no file, attached to no parent, no error. The code
  differs at the store with the one key \<^verbatim>\<open>!folders.item!P1\<close> (no child id):
  \<^verbatim>\<open>organizeDocuments\<close> drops the record, but \<^verbatim>\<open>extractFolders\<close>, testing the prefix
  \<^verbatim>\<open>!folders\<close>, writes it to \<^verbatim>\<open>_folders.json\<close>.
\<close>

theorem malformed_embedded_in_folders_file:
  "key_match ''!folders.item!P1'' = Some (''folders.item'', ''P1'')
   \<and> first_two (split_dot ''P1'') = (Some ''P1'', None)
   \<and> organizeDocuments [(''!folders.item!P1'', JObj [(''name'', JStr ''x'')])] = ([], [])
   \<and> outcome (run_extract actors None
        (stored (JObj [(''!folders.item!P1'', JObj [(''name'', JStr ''x'')])]) []))
       = Some (Inr (),
          [LogNoPackFolder [''repo'', ''packsrc'', ''actors''],
           FsMkdir [''repo'', ''packsrc'', ''actors''],
           FsWrite [''repo'', ''packsrc'', ''actors'', ''_folders.json'']
             (JObj [(''!folders.item!P1'', JObj [(''name'', JStr ''x'')])]),
           LogFolders 1 [''repo'', ''packsrc'', ''actors'', ''_folders.json''],
           LogCount 0, LogCompleted [''repo'', ''packs'', ''actors.db'']],
          [])"
  by code_simp

text \<open>
  C9. A key that is no folder key and has not the shape of a non-empty type section and a
  non-empty id section between and after two exclamation marks is ignored: neither content
  nor embedded, in no file, not counted, no error. The code differs at the store with the
  one key \<^verbatim>\<open>!foldersX\<close> (no second exclamation mark, and not the prefix \<^verbatim>\<open>!folders!\<close>):
  the partition ignores the record and the count is 0, but \<^verbatim>\<open>extractFolders\<close>, testing
  the prefix \<^verbatim>\<open>!folders\<close>, writes it to \<^verbatim>\<open>_folders.json\<close>.
\<close>

theorem unmatched_key_in_folders_file:
  "\<not> starts_with ''!foldersX'' ''!folders!''
   \<and> key_match ''!foldersX'' = None
   \<and> organizeDocuments [(''!foldersX'', JObj [(''name'', JStr ''x'')])] = ([], [])
   \<and> outcome (run_extract actors None
        (stored (JObj [(''!foldersX'', JObj [(''name'', JStr ''x'')])]) []))
       = Some (Inr (),
          [LogNoPackFolder [''repo'', ''packsrc'', ''actors''],
           FsMkdir [''repo'', ''packsrc'', ''actors''],
           FsWrite [''repo'', ''packsrc'', ''actors'', ''_folders.json'']
             (JObj [(''!foldersX'', JObj [(''name'', JStr ''x'')])]),
           LogFolders 1 [''repo'', ''packsrc'', ''actors'', ''_folders.json''],
           LogCount 0, LogCompleted [''repo'', ''packs'', ''actors.db'']],
          [])"
  by code_simp

section \<open>The deletion that is not awaited\<close>

text \<open>
  C2. When the pack folder does not exist the run goes on; when it exists and its deletion
  fails, the call of \<^verbatim>\<open>extract\<close> fails and nothing is written. The code does the first
  and differs on the second: with the pack folder present and \<^verbatim>\<open>fs.rm\<close> failing with
  \<^verbatim>\<open>EACCES\<close>, the promise of \<^verbatim>\<open>extract\<close> is fulfilled, the document is written next to
  the old file, and the error of \<^verbatim>\<open>deletePackFolder\<close> is a rejection nobody handles.
\<close>

theorem delete_failure_not_fatal:
  "outcome (run_extract actors None (stored one_actor []))
     = Some (Inr (),
        [LogNoPackFolder [''repo'', ''packsrc'', ''actors''],
         FsMkdir [''repo'', ''packsrc'', ''actors''], LogNoFolders,
         FsMkdir [''repo'', ''packsrc'', ''actors''],
         FsWrite [''repo'', ''packsrc'', ''actors'', ''A.json''] (JObj [(''name'', JStr ''A'')]),
         LogCount 1, LogCompleted [''repo'', ''packs'', ''actors.db'']],
        [])
   \<and> outcome (run_extract actors None ((stored one_actor old_tree)\<lparr>rm_fault := Some ''EACCES''\<rparr>))
     = Some (Inr (),
        [FsMkdir [''repo'', ''packsrc'', ''actors''], LogNoFolders,
         FsMkdir [''repo'', ''packsrc'', ''actors''],
         FsWrite [''repo'', ''packsrc'', ''actors'', ''A.json''] (JObj [(''name'', JStr ''A'')]),
         LogCount 1, LogCompleted [''repo'', ''packs'', ''actors.db'']],
        [DeleteFailed [''repo'', ''packsrc'', ''actors''] ''EACCES''])
   \<and> output_of actors
        (run_extract actors None ((stored one_actor old_tree)\<lparr>rm_fault := Some ''EACCES''\<rparr>))
     = Some [([''repo'', ''packsrc'', ''actors''], Dir),
             ([''repo'', ''packsrc'', ''actors'', ''Old.json''], File JNull),
             ([''repo'', ''packsrc'', ''actors'', ''A.json''], File (JObj [(''name'', JStr ''A'')]))]"
  by code_simp

text \<open>
  C1. Two runs on the same source give the same output directory, each run deleting the
  old directory before it writes. The code differs: the deletion is not awaited. After a
  first run, a second run in which the deletion is done before the first write gives the
  same directory; a second run in which \<^verbatim>\<open>fs.rm\<close> takes effect after the four file
  operations of \<^verbatim>\<open>extract\<close> writes \<^verbatim>\<open>A.json\<close> first and deletes the folder afterwards,
  and the output directory is gone.
\<close>

theorem rerun_not_idempotent:
  "output_of actors (run_extract actors None (stored one_actor old_tree))
     = Some [([''repo'', ''packsrc'', ''actors''], Dir),
             ([''repo'', ''packsrc'', ''actors'', ''A.json''], File (JObj [(''name'', JStr ''A'')]))]
   \<and> output_of actors (rerun actors 0 (run_extract actors None (stored one_actor old_tree)))
     = Some [([''repo'', ''packsrc'', ''actors''], Dir),
             ([''repo'', ''packsrc'', ''actors'', ''A.json''], File (JObj [(''name'', JStr ''A'')]))]
   \<and> output_of actors (rerun actors 4 (run_extract actors None (stored one_actor old_tree)))
     = Some []
   \<and> outcome (rerun actors 4 (run_extract actors None (stored one_actor old_tree)))
     = Some (Inr (),
        [FsMkdir [''repo'', ''packsrc'', ''actors''], LogNoFolders,
         FsMkdir [''repo'', ''packsrc'', ''actors''],
         FsWrite [''repo'', ''packsrc'', ''actors'', ''A.json''] (JObj [(''name'', JStr ''A'')]),
         LogCount 1, LogCompleted [''repo'', ''packs'', ''actors.db''],
         FsRm [''repo'', ''packsrc'', ''actors''],
         LogDeleted [''repo'', ''packsrc'', ''actors'']],
        [])"
  by code_simp

section \<open>Resolving the folder path\<close>

lemma folder_walk_follows:
  "follows fd cur fs final \<Longrightarrow>
   folder_walk fd cur acc = folder_walk fd final (rev (map folder_name fs) @ acc)"
proof (induction fs arbitrary: cur acc)
  case Nil
  then show ?case by simp
next
  case (Cons f fs)
  from Cons.prems obtain v where v: "cur = Some v" "truthy (Some v)"
    "map_of fd (''!folders!'' @ js_to_string v) = Some f" "truthy (Some f)"
    "follows fd (get_prop f ''folder'') fs final"
    by (auto split: option.splits)
  have "folder_walk fd cur acc = folder_walk fd (get_prop f ''folder'') (folder_name f # acc)"
    using v by (subst folder_walk.simps) (simp add: folder_name_def)
  also have "\<dots> = folder_walk fd final (rev (map folder_name fs) @ folder_name f # acc)"
    using Cons.IH[OF v(5)] .
  finally show ?case by simp
qed

lemma folder_walk_missing:
  "truthy (Some v) \<Longrightarrow> \<not> truthy (map_of fd (''!folders!'' @ js_to_string v)) \<Longrightarrow>
   folder_walk fd (Some v) acc = Some (acc, [''!folders!'' @ js_to_string v])"
  by (subst folder_walk.simps) (auto simp: Let_def split: option.splits)

lemma folder_walk_root:
  "\<not> truthy final \<Longrightarrow> folder_walk fd final acc = Some (acc, [])"
  by (subst folder_walk.simps) (auto split: option.splits)

lemma follows_truthy:
  "follows fd cur fs final \<Longrightarrow> truthy final \<Longrightarrow> truthy cur"
  by (cases fs) (auto split: option.splits)

lemma follows_falsy_start:
  "follows fd cur fs final \<Longrightarrow> \<not> truthy cur \<Longrightarrow> fs = [] \<and> final = cur"
  by (cases fs) (auto split: option.splits)

lemma resolve_missing:
  assumes "follows fd (map_of document ''folder'') fs (Some v)" "truthy (Some v)"
    "\<not> truthy (map_of fd (''!folders!'' @ js_to_string v))"
  shows "resolveFolderPath document fd
         = Some (rev (map folder_name fs), [''!folders!'' @ js_to_string v])"
proof -
  have "truthy (map_of document ''folder'')"
    using follows_truthy[OF assms(1,2)] .
  then have "resolveFolderPath document fd = folder_walk fd (map_of document ''folder'') []"
    by (simp add: resolveFolderPath_def)
  also have "\<dots> = folder_walk fd (Some v) (rev (map folder_name fs) @ [])"
    using folder_walk_follows[OF assms(1)] .
  finally show ?thesis
    using folder_walk_missing[OF assms(2,3)] by simp
qed

lemma resolve_root:
  assumes "follows fd (map_of document ''folder'') fs final" "\<not> truthy final"
  shows "resolveFolderPath document fd = Some (rev (map folder_name fs), [])"
proof (cases "truthy (map_of document ''folder'')")
  case True
  then have "resolveFolderPath document fd = folder_walk fd (map_of document ''folder'') []"
    by (simp add: resolveFolderPath_def)
  also have "\<dots> = folder_walk fd final (rev (map folder_name fs) @ [])"
    using folder_walk_follows[OF assms(1)] .
  finally show ?thesis
    using folder_walk_root[OF assms(2)] by simp
next
  case False
  then have "fs = []" using follows_falsy_start[OF assms(1)] by simp
  with False show ?thesis by (simp add: resolveFolderPath_def)
qed


lemma map_of_assign: "map_of (assign k v l) = (map_of l)(k \<mapsto> v)"
  by (induction l) (auto simp: fun_eq_iff)

lemma background_Nil [simp]: "background []"
  by (simp add: background_def)

lemma background_append [simp]: "background (xs @ ys) \<longleftrightarrow> background xs \<and> background ys"
  by (simp add: background_def)

lemma continues_refl: "continues w w"
  by (simp add: continues_def)

lemma continues_trans: "continues a b \<Longrightarrow> continues b c \<Longrightarrow> continues a c"
  unfolding continues_def
proof -
  assume "\<exists>es. trace b = trace a @ es \<and> background es" "\<exists>es. trace c = trace b @ es \<and> background es"
  then obtain es1 es2 where "trace b = trace a @ es1" "background es1"
    "trace c = trace b @ es2" "background es2" by blast
  then have "trace c = trace a @ (es1 @ es2) \<and> background (es1 @ es2)" by simp
  then show "\<exists>es. trace c = trace a @ es \<and> background es" by blast
qed

lemma continues_same_trace: "trace w' = trace w \<Longrightarrow> continues w w'"
  by (simp add: continues_def)

lemma continues_detached_step: "continues w (detached_step w)"
  by (auto simp: continues_def background_def detached_step_def delete_catch_def emit_def
      split: detached_task.splits option.splits)

lemma continues_await_tick: "continues w (await_tick w)"
proof -
  define w1 where "w1 = (case detached w of
                  AccessPending p \<Rightarrow> if access_at w \<le> clock w then detached_step w else w
                | _ \<Rightarrow> w)"
  define w2 where "w2 = (case detached w1 of
                  RmPending p \<Rightarrow> if rm_at w1 \<le> clock w1 then detached_step w1 else w1
                | _ \<Rightarrow> w1)"
  have 1: "continues w w1"
    unfolding w1_def
    by (auto simp: continues_refl continues_detached_step split: detached_task.splits)
  have 2: "continues w1 w2"
    unfolding w2_def
    by (auto simp: continues_refl continues_detached_step split: detached_task.splits)
  have 3: "await_tick w = w2\<lparr>clock := Suc (clock w2)\<rparr>"
    unfolding w2_def w1_def await_tick_def Let_def by (rule refl)
  have "continues w2 (await_tick w)"
    unfolding 3 by (rule continues_same_trace) simp
  with 1 2 show ?thesis by (blast intro: continues_trans)
qed

lemma continues_emit_bg:
  "\<not> is_write e \<Longrightarrow> \<not> is_failure e \<Longrightarrow> continues w (emit e w)"
  by (simp add: continues_def emit_def background_def)

lemma trace_emit: "trace (emit e w) = trace w @ [e]"
  by (simp add: emit_def)

lemma trace_warned: "trace (warned ws w) = trace w @ map WarnMissingFolder ws"
  unfolding warned_def
  by (induction ws arbitrary: w) (simp_all add: trace_emit)

lemma continues_warned: "continues w (warned ws w)"
  unfolding warned_def
proof (induction ws arbitrary: w)
  case Nil
  show ?case by (simp add: continues_refl)
next
  case (Cons k ks)
  have "continues w (emit (WarnMissingFolder k) w)"
    by (rule continues_emit_bg) simp_all
  with Cons[of "emit (WarnMissingFolder k) w"] show ?case
    by (auto intro: continues_trans)
qed

lemma fs_mkdir_continues: "fs_mkdir p w = (w', r) \<Longrightarrow> continues w w'"
proof -
  assume a: "fs_mkdir p w = (w', r)"
  let ?w1 = "await_tick w"
  have "continues ?w1 w'"
    using a
    by (auto simp: fs_mkdir_def Let_def continues_refl continues_def emit_def background_def
        split: if_splits)
  with continues_await_tick[of w] show ?thesis by (blast intro: continues_trans)
qed

lemma fs_writeFile_failed: "fs_writeFile p v w = (w', Some e) \<Longrightarrow> continues w w'"
proof -
  assume a: "fs_writeFile p v w = (w', Some e)"
  have "w' = await_tick w"
    using a by (auto simp: fs_writeFile_def Let_def split: if_splits)
  then show ?thesis by (simp add: continues_await_tick)
qed

lemma fs_writeFile_done:
  assumes "fs_writeFile p v w = (w', None)"
  shows "\<exists>es. trace w' = trace w @ es @ [FsWrite p v] \<and> background es"
    and "node_at w' p = Some (File v)"
proof -
  let ?w1 = "await_tick w"
  have w': "w' = emit (FsWrite p v) (?w1\<lparr>nodes := assign p (File v) (nodes ?w1)\<rparr>)"
    using assms by (auto simp: fs_writeFile_def Let_def split: if_splits)
  obtain es where "trace ?w1 = trace w @ es" "background es"
    using continues_await_tick[of w] by (auto simp: continues_def)
  then show "\<exists>es. trace w' = trace w @ es @ [FsWrite p v] \<and> background es"
    by (auto simp: w' emit_def)
  show "node_at w' p = Some (File v)"
    by (simp add: w' emit_def node_at_def map_of_assign)
qed


lemma extract_document_unfold:
  assumes "resolveFolderPath d fd = Some (fp, ws)"
  shows "extract_document c fd (w, n) (k, d) =
     (case fs_mkdir (target_dir c fp) (warned ws w) of
        (w1, Some e) \<Rightarrow> Some (emit (ErrExtract k e) w1, n)
      | (w1, None) \<Rightarrow>
          (case fs_writeFile (target_file c d fp) (JObj d) w1 of
             (w2, Some e) \<Rightarrow> Some (emit (ErrExtract k e) w2, n)
           | (w2, None) \<Rightarrow> Some (w2, Suc n)))"
  unfolding extract_document_def target_dir_def target_file_def warned_def Let_def
  using assms by simp

lemma extract_document_cases:
  assumes "resolveFolderPath d fd = Some (fp, ws)"
  shows "(\<exists>w' es. extract_document c fd (w, n) (k, d) = Some (w', Suc n)
            \<and> trace w' = trace w @ es @ [FsWrite (target_file c d fp) (JObj d)]
            \<and> background es
            \<and> node_at w' (target_file c d fp) = Some (File (JObj d)))
       \<or> (\<exists>w' es e. extract_document c fd (w, n) (k, d) = Some (w', n)
            \<and> trace w' = trace w @ es @ [ErrExtract k e] \<and> background es)"
proof -
  obtain w1 r1 where m: "fs_mkdir (target_dir c fp) (warned ws w) = (w1, r1)"
    by (cases "fs_mkdir (target_dir c fp) (warned ws w)") auto
  have "continues w (warned ws w)" by (rule continues_warned)
  moreover have "continues (warned ws w) w1" using m by (rule fs_mkdir_continues)
  ultimately have "continues w w1" by (rule continues_trans)
  then obtain es1 where es1: "trace w1 = trace w @ es1" "background es1"
    by (auto simp: continues_def)
  show ?thesis
  proof (cases r1)
    case (Some e)
    then have "extract_document c fd (w, n) (k, d) = Some (emit (ErrExtract k e) w1, n)"
      using m by (simp add: extract_document_unfold[OF assms])
    moreover have "trace (emit (ErrExtract k e) w1) = trace w @ es1 @ [ErrExtract k e]"
      using es1 by (simp add: emit_def)
    ultimately show ?thesis using es1(2) by blast
  next
    case None
    obtain w2 r2 where wr: "fs_writeFile (target_file c d fp) (JObj d) w1 = (w2, r2)"
      by (cases "fs_writeFile (target_file c d fp) (JObj d) w1") auto
    show ?thesis
    proof (cases r2)
      case (Some e)
      then have "extract_document c fd (w, n) (k, d) = Some (emit (ErrExtract k e) w2, n)"
        using m wr None by (simp add: extract_document_unfold[OF assms])
      moreover obtain es2 where "trace w2 = trace w1 @ es2" "background es2"
        using fs_writeFile_failed[of _ _ w1 w2 e] wr Some by (auto simp: continues_def)
      then have "trace (emit (ErrExtract k e) w2) = trace w @ (es1 @ es2) @ [ErrExtract k e]"
        "background (es1 @ es2)"
        using es1 by (simp_all add: emit_def)
      ultimately show ?thesis by blast
    next
      case None2: None
      then have x: "extract_document c fd (w, n) (k, d) = Some (w2, Suc n)"
        using m wr None by (simp add: extract_document_unfold[OF assms])
      have wr': "fs_writeFile (target_file c d fp) (JObj d) w1 = (w2, None)"
        using wr None2 by simp
      obtain es2 where "trace w2 = trace w1 @ es2 @ [FsWrite (target_file c d fp) (JObj d)]"
        "background es2"
        using fs_writeFile_done(1)[OF wr'] by blast
      then have "trace w2 = trace w @ (es1 @ es2) @ [FsWrite (target_file c d fp) (JObj d)]"
        "background (es1 @ es2)"
        using es1 by simp_all
      with x fs_writeFile_done(2)[OF wr'] show ?thesis by blast
    qed
  qed
qed

text \<open>
  C5. A document without a folder (the field absent or falsy) resolves to the root of the
  pack. Otherwise the walk goes from folder to folder through the keys
  \<^verbatim>\<open>!folders!<id>\<close>, putting each sanitized folder name in front; at a key that is
  missing in the folder mapping it warns and stops with the path it has; at a folder
  without a parent it stops without a warning. The document is then written below that
  path (the root when the first key is missing), when the file system takes the two
  operations.
\<close>

theorem resolveFolderPath_missing_folder:
  "(\<not> truthy (map_of d0 ''folder'') \<longrightarrow> resolveFolderPath d0 fd = Some ([], []))
   \<and> (follows fd (map_of d ''folder'') fs (Some v) \<and> truthy (Some v)
        \<and> \<not> truthy (map_of fd (''!folders!'' @ js_to_string v)) \<longrightarrow>
       resolveFolderPath d fd = Some (rev (map folder_name fs), [''!folders!'' @ js_to_string v]))
   \<and> (follows fd (map_of d1 ''folder'') fs1 final \<and> \<not> truthy final \<longrightarrow>
       resolveFolderPath d1 fd = Some (rev (map folder_name fs1), []))
   \<and> (resolveFolderPath d fd = Some (folderPath, warnings)
        \<and> fs_mkdir (target_dir c folderPath) (warned warnings w) = (w1, None)
        \<and> fs_writeFile (target_file c d folderPath) (JObj d) w1 = (w2, None) \<longrightarrow>
       extract_document c fd (w, n) (key, d) = Some (w2, Suc n)
       \<and> node_at w2 (target_file c d folderPath) = Some (File (JObj d))
       \<and> (\<forall>k\<in>set warnings. WarnMissingFolder k \<in> set (trace w2)))"
proof (intro conjI impI)
  assume "\<not> truthy (map_of d0 ''folder'')"
  then show "resolveFolderPath d0 fd = Some ([], [])"
    by (simp add: resolveFolderPath_def)
next
  assume "follows fd (map_of d ''folder'') fs (Some v) \<and> truthy (Some v)
        \<and> \<not> truthy (map_of fd (''!folders!'' @ js_to_string v))"
  then show "resolveFolderPath d fd
             = Some (rev (map folder_name fs), [''!folders!'' @ js_to_string v])"
    using resolve_missing by blast
next
  assume "follows fd (map_of d1 ''folder'') fs1 final \<and> \<not> truthy final"
  then show "resolveFolderPath d1 fd = Some (rev (map folder_name fs1), [])"
    using resolve_root by blast
next
  assume a: "resolveFolderPath d fd = Some (folderPath, warnings)
        \<and> fs_mkdir (target_dir c folderPath) (warned warnings w) = (w1, None)
        \<and> fs_writeFile (target_file c d folderPath) (JObj d) w1 = (w2, None)"
  then show "extract_document c fd (w, n) (key, d) = Some (w2, Suc n)"
    by (simp add: extract_document_unfold)
  from a show "node_at w2 (target_file c d folderPath) = Some (File (JObj d))"
    using fs_writeFile_done(2) by blast
  from a have "continues (warned warnings w) w1"
    using fs_mkdir_continues by blast
  then obtain es1 where 1: "trace w1 = trace (warned warnings w) @ es1"
    by (auto simp: continues_def)
  from a obtain es2 where 2: "trace w2 = trace w1 @ es2 @ [FsWrite (target_file c d folderPath) (JObj d)]"
    using fs_writeFile_done(1) by blast
  show "\<forall>k\<in>set warnings. WarnMissingFolder k \<in> set (trace w2)"
    by (simp add: 1 2 trace_warned)
qed

theorem resolveFolderPath_missing_folder_witness:
  "resolveFolderPath [(''name'', JStr ''Loose'')] some_folders = Some ([], [])
   \<and> resolveFolderPath goblin some_folders = Some ([''Monsters''], [''!folders!F9''])
   \<and> resolveFolderPath orc some_folders = Some ([''Top_Level''], [])
   \<and> (\<exists>w2. extract_document actors some_folders (stored JNull pack_tree, 0) (''!actor!G'', goblin)
              = Some (w2, Suc 0)
            \<and> node_at w2 [''repo'', ''packsrc'', ''actors'', ''Monsters'', ''Goblin.json'']
              = Some (File (JObj goblin))
            \<and> WarnMissingFolder ''!folders!F9'' \<in> set (trace w2))"
proof -
  let ?w = "stored JNull pack_tree"
  define w1 where "w1 = fst (fs_mkdir (target_dir actors [''Monsters'']) (warned [''!folders!F9''] ?w))"
  define w2 where "w2 = fst (fs_writeFile (target_file actors goblin [''Monsters'']) (JObj goblin) w1)"
  have h0: "\<not> truthy (map_of [(''name'', JStr ''Loose'')] ''folder'')"
    by code_simp
  have h1: "follows some_folders (map_of goblin ''folder'') [monsters] (Some (JStr ''F9''))
            \<and> truthy (Some (JStr ''F9''))
            \<and> \<not> truthy (map_of some_folders (''!folders!'' @ js_to_string (JStr ''F9'')))"
    by code_simp
  have h2: "follows some_folders (map_of orc ''folder'') [top_folder] (Some JNull)
            \<and> \<not> truthy (Some JNull)"
    by code_simp
  have r: "resolveFolderPath goblin some_folders = Some ([''Monsters''], [''!folders!F9''])"
    by code_simp
  have "snd (fs_mkdir (target_dir actors [''Monsters'']) (warned [''!folders!F9''] ?w)) = None"
    by code_simp
  then have m: "fs_mkdir (target_dir actors [''Monsters'']) (warned [''!folders!F9''] ?w) = (w1, None)"
    unfolding w1_def by (metis prod.collapse)
  have "snd (fs_writeFile (target_file actors goblin [''Monsters'']) (JObj goblin) w1) = None"
    unfolding w1_def by code_simp
  then have wr: "fs_writeFile (target_file actors goblin [''Monsters'']) (JObj goblin) w1 = (w2, None)"
    unfolding w2_def by (metis prod.collapse)
  have t: "target_file actors goblin [''Monsters'']
           = [''repo'', ''packsrc'', ''actors'', ''Monsters'', ''Goblin.json'']"
    by code_simp
  note inst = resolveFolderPath_missing_folder
    [of "[(''name'', JStr ''Loose'')]" some_folders goblin "[monsters]" "JStr ''F9''" orc
      "[top_folder]" "Some JNull" "[''Monsters'']" "[''!folders!F9'']" actors ?w w1 w2 0 "''!actor!G''"]
  have c1: "resolveFolderPath [(''name'', JStr ''Loose'')] some_folders = Some ([], [])"
    using inst h0 by blast
  have "resolveFolderPath goblin some_folders
        = Some (rev (map folder_name [monsters]), [''!folders!'' @ js_to_string (JStr ''F9'')])"
    using inst h1 by blast
  also have "\<dots> = Some ([''Monsters''], [''!folders!F9''])"
    by code_simp
  finally have c2: "resolveFolderPath goblin some_folders = Some ([''Monsters''], [''!folders!F9''])" .
  have "resolveFolderPath orc some_folders = Some (rev (map folder_name [top_folder]), [])"
    using inst h2 by blast
  also have "\<dots> = Some ([''Top_Level''], [])"
    by code_simp
  finally have c3: "resolveFolderPath orc some_folders = Some ([''Top_Level''], [])" .
  have c4: "extract_document actors some_folders (?w, 0) (''!actor!G'', goblin) = Some (w2, Suc 0)
       \<and> node_at w2 (target_file actors goblin [''Monsters'']) = Some (File (JObj goblin))
       \<and> (\<forall>k\<in>set [''!folders!F9'']. WarnMissingFolder k \<in> set (trace w2))"
    using inst r m wr by blast
  then have "extract_document actors some_folders (?w, 0) (''!actor!G'', goblin) = Some (w2, Suc 0)
       \<and> node_at w2 [''repo'', ''packsrc'', ''actors'', ''Monsters'', ''Goblin.json'']
           = Some (File (JObj goblin))
       \<and> WarnMissingFolder ''!folders!F9'' \<in> set (trace w2)"
    unfolding t by simp
  then have c5: "\<exists>w2. extract_document actors some_folders (?w, 0) (''!actor!G'', goblin) = Some (w2, Suc 0)
       \<and> node_at w2 [''repo'', ''packsrc'', ''actors'', ''Monsters'', ''Goblin.json'']
           = Some (File (JObj goblin))
       \<and> WarnMissingFolder ''!folders!F9'' \<in> set (trace w2)"
    by (rule exI)
  from c1 c2 c3 c5 show ?thesis by (intro conjI)
qed

section \<open>The write loop\<close>

lemma background_filters:
  "background es \<Longrightarrow> filter is_write es = [] \<and> filter is_failure es = []"
  by (induction es) (auto simp: background_def)

lemma for_each_documents:
  assumes "\<forall>(k, d)\<in>set docs. resolveFolderPath d fd \<noteq> None"
  shows "\<exists>w' es. for_each (extract_document c fd) docs (w, n)
                   = Some (w', n + length (filter is_write es))
           \<and> trace w' = trace w @ es
           \<and> length docs = length (filter is_write es) + length (filter is_failure es)
           \<and> (\<forall>(k, d)\<in>set docs. (\<exists>e. ErrExtract k e \<in> set es)
                  \<or> FsWrite (file_of c fd d) (JObj d) \<in> set es)"
  using assms
proof (induction docs arbitrary: w n)
  case Nil
  show ?case by simp
next
  case (Cons x docs)
  obtain k d where x: "x = (k, d)" by (cases x)
  from Cons.prems x obtain fp ws where r: "resolveFolderPath d fd = Some (fp, ws)"
    by auto
  have f: "file_of c fd d = target_file c d fp"
    by (simp add: file_of_def r)
  have rest: "\<forall>(k, d)\<in>set docs. resolveFolderPath d fd \<noteq> None"
    using Cons.prems by simp
  from extract_document_cases[OF r, of c w n k]
  consider (written) w1 es1 where
      "extract_document c fd (w, n) (k, d) = Some (w1, Suc n)"
      "trace w1 = trace w @ es1 @ [FsWrite (target_file c d fp) (JObj d)]" "background es1"
    | (failed) w1 es1 e where
      "extract_document c fd (w, n) (k, d) = Some (w1, n)"
      "trace w1 = trace w @ es1 @ [ErrExtract k e]" "background es1"
    by blast
  then show ?case
  proof cases
    case written
    from Cons.IH[OF rest, of w1 "Suc n"] obtain w' es2 where ih:
      "for_each (extract_document c fd) docs (w1, Suc n)
        = Some (w', Suc n + length (filter is_write es2))"
      "trace w' = trace w1 @ es2"
      "length docs = length (filter is_write es2) + length (filter is_failure es2)"
      "\<forall>(k, d)\<in>set docs. (\<exists>e. ErrExtract k e \<in> set es2)
          \<or> FsWrite (file_of c fd d) (JObj d) \<in> set es2"
      by blast
    let ?es = "es1 @ [FsWrite (target_file c d fp) (JObj d)] @ es2"
    note b = background_filters[OF written(3)]
    have 1: "for_each (extract_document c fd) (x # docs) (w, n)
             = Some (w', n + length (filter is_write ?es))"
      using written(1) ih(1) x by (simp add: b)
    have 2: "trace w' = trace w @ ?es"
      using written(2) ih(2) by simp
    have 3: "length (x # docs) = length (filter is_write ?es) + length (filter is_failure ?es)"
      using ih(3) by (simp add: b)
    have 4: "\<forall>(k, d)\<in>set (x # docs). (\<exists>e. ErrExtract k e \<in> set ?es)
          \<or> FsWrite (file_of c fd d) (JObj d) \<in> set ?es"
      using ih(4) x f by auto
    from 1 2 3 4 show ?thesis by blast
  next
    case failed
    from Cons.IH[OF rest, of w1 n] obtain w' es2 where ih:
      "for_each (extract_document c fd) docs (w1, n)
        = Some (w', n + length (filter is_write es2))"
      "trace w' = trace w1 @ es2"
      "length docs = length (filter is_write es2) + length (filter is_failure es2)"
      "\<forall>(k, d)\<in>set docs. (\<exists>e. ErrExtract k e \<in> set es2)
          \<or> FsWrite (file_of c fd d) (JObj d) \<in> set es2"
      by blast
    let ?es = "es1 @ [ErrExtract k e] @ es2"
    note b = background_filters[OF failed(3)]
    have 1: "for_each (extract_document c fd) (x # docs) (w, n)
             = Some (w', n + length (filter is_write ?es))"
      using failed(1) ih(1) x by (simp add: b)
    have 2: "trace w' = trace w @ ?es"
      using failed(2) ih(2) by simp
    have 3: "length (x # docs) = length (filter is_write ?es) + length (filter is_failure ?es)"
      using ih(3) by (simp add: b)
    have 4: "\<forall>(k, d)\<in>set (x # docs). (\<exists>e. ErrExtract k e \<in> set ?es)
          \<or> FsWrite (file_of c fd d) (JObj d) \<in> set ?es"
      using ih(4) x by auto
    from 1 2 3 4 show ?thesis by blast
  qed
qed

section \<open>Embedded documents and their parents\<close>

lemma organize_top_level:
  "is_top_level key \<Longrightarrow>
   organize_entry (tops, emb) (key, d) = (assign key (own_entries d) tops, emb)"
  by (auto simp: organize_entry_def is_top_level_def split: option.splits)

lemma organize_ignored:
  "\<not> is_top_level key \<Longrightarrow> embedded_parent key = None \<Longrightarrow>
   organize_entry (tops, emb) (key, d) = (tops, emb)"
  by (auto simp: organize_entry_def is_top_level_def embedded_parent_def Let_def
      split: option.splits prod.splits if_splits)

lemma embedded_parent_SomeD:
  assumes "embedded_parent key = Some pk"
  obtains typeSection idSection parentType childType parentId childId where
    "\<not> starts_with key ''!folders!''" "key_match key = Some (typeSection, idSection)"
    "CHR ''.'' \<in> set typeSection"
    "first_two (split_dot typeSection) = (parentType, childType)"
    "first_two (split_dot idSection) = (parentId, childId)"
    "truthy_string parentId" "truthy_string childId"
    "pk = ''!'' @ template parentType @ ''!'' @ template parentId"
proof -
  from assms have nf: "\<not> starts_with key ''!folders!''"
    by (auto simp: embedded_parent_def split: if_splits)
  from assms nf obtain typeSection idSection where km: "key_match key = Some (typeSection, idSection)"
    by (auto simp: embedded_parent_def split: option.splits)
  from assms nf km have dot: "CHR ''.'' \<in> set typeSection"
    by (auto simp: embedded_parent_def split: if_splits)
  obtain parentType childType where t: "first_two (split_dot typeSection) = (parentType, childType)"
    by (cases "first_two (split_dot typeSection)")
  obtain parentId childId where i: "first_two (split_dot idSection) = (parentId, childId)"
    by (cases "first_two (split_dot idSection)")
  from assms nf km dot t i have "truthy_string parentId \<and> truthy_string childId
      \<and> pk = ''!'' @ template parentType @ ''!'' @ template parentId"
    by (auto simp: embedded_parent_def split: if_splits)
  with nf km dot t i that show thesis by blast
qed

lemma organize_embedded:
  assumes "embedded_parent key = Some pk"
  shows "\<exists>entry. edocument entry = d
     \<and> organize_entry (tops, emb) (key, d)
         = (tops, assign pk ((case map_of emb pk of None \<Rightarrow> [] | Some l \<Rightarrow> l) @ [entry]) emb)"
proof -
  from embedded_parent_SomeD[OF assms]
  obtain typeSection idSection parentType childType parentId childId where h:
    "\<not> starts_with key ''!folders!''" "key_match key = Some (typeSection, idSection)"
    "CHR ''.'' \<in> set typeSection"
    "first_two (split_dot typeSection) = (parentType, childType)"
    "first_two (split_dot idSection) = (parentId, childId)"
    "truthy_string parentId" "truthy_string childId"
    "pk = ''!'' @ template parentType @ ''!'' @ template parentId"
    by blast
  let ?entry = "\<lparr>ekey = key, edocument = d, echildType = childType, echildId = childId\<rparr>"
  have "organize_entry (tops, emb) (key, d)
         = (tops, assign pk ((case map_of emb pk of None \<Rightarrow> [] | Some l \<Rightarrow> l) @ [?entry]) emb)"
    using h by (simp add: organize_entry_def Let_def)
  moreover have "edocument ?entry = d" by simp
  ultimately show ?thesis by blast
qed

lemma embedded_not_top_level: "embedded_parent key = Some pk \<Longrightarrow> \<not> is_top_level key"
  by (auto simp: is_top_level_def embedded_parent_def split: option.splits if_splits)

lemma assign_fresh: "k \<notin> fst ` set l \<Longrightarrow> assign k v l = l @ [(k, v)]"
  by (induction l) auto

lemma organize_no_embedded:
  assumes "\<forall>(k, d)\<in>set xs. embedded_parent k = None" "distinct (map fst xs)"
    "fst ` set tops \<inter> fst ` set xs = {}"
  shows "foldl organize_entry (tops, emb) xs = (tops @ copies xs, emb)"
  using assms
proof (induction xs arbitrary: tops)
  case Nil
  show ?case by (simp add: copies_def)
next
  case (Cons x xs)
  obtain k d where x: "x = (k, d)" by (cases x)
  have e: "embedded_parent k = None" using Cons.prems(1) x by simp
  have rest: "\<forall>(k, d)\<in>set xs. embedded_parent k = None" "distinct (map fst xs)"
    using Cons.prems by simp_all
  show ?case
  proof (cases "is_top_level k")
    case True
    have fresh: "k \<notin> fst ` set tops" using Cons.prems(3) x by auto
    have step: "organize_entry (tops, emb) x = (tops @ [(k, own_entries d)], emb)"
      using True fresh x by (simp add: organize_top_level assign_fresh)
    have disj: "fst ` set (tops @ [(k, own_entries d)]) \<inter> fst ` set xs = {}"
      using Cons.prems(2,3) x by auto
    show ?thesis
      using Cons.IH[OF rest disj] step True x by (simp add: copies_def)
  next
    case False
    have step: "organize_entry (tops, emb) x = (tops, emb)"
      using False e x by (simp add: organize_ignored)
    have disj: "fst ` set tops \<inter> fst ` set xs = {}"
      using Cons.prems(3) by auto
    show ?thesis
      using Cons.IH[OF rest disj] step False x by (simp add: copies_def)
  qed
qed

lemma copies_append: "copies (xs @ ys) = copies xs @ copies ys"
  by (simp add: copies_def)

lemma copies_keys: "fst ` set (copies xs) \<subseteq> fst ` set xs"
  by (force simp: copies_def)

lemma organize_one_embedded:
  assumes "distinct (map fst store)" "(ck, cd) \<in> set store" "embedded_parent ck = Some pk"
    "\<forall>(k, d)\<in>set store. k \<noteq> ck \<longrightarrow> embedded_parent k = None"
  shows "\<exists>entry. edocument entry = cd
           \<and> foldl organize_entry ([], []) store = (copies store, [(pk, [entry])])"
proof -
  from assms(2) obtain pre post where s: "store = pre @ (ck, cd) # post"
    by (meson split_list)
  have d: "distinct (map fst pre)" "distinct (map fst post)" "ck \<notin> fst ` set pre"
    "ck \<notin> fst ` set post" "fst ` set pre \<inter> fst ` set post = {}"
    using assms(1) s by auto
  have npre: "\<forall>(k, d)\<in>set pre. embedded_parent k = None"
  proof (clarify)
    fix k d assume m: "(k, d) \<in> set pre"
    then have "(k, d) \<in> set store" by (simp add: s)
    moreover have "k \<noteq> ck" using m d(3) by force
    ultimately show "embedded_parent k = None" using assms(4) by blast
  qed
  have npost: "\<forall>(k, d)\<in>set post. embedded_parent k = None"
  proof (clarify)
    fix k d assume m: "(k, d) \<in> set post"
    then have "(k, d) \<in> set store" by (simp add: s)
    moreover have "k \<noteq> ck" using m d(4) by force
    ultimately show "embedded_parent k = None" using assms(4) by blast
  qed
  have 1: "foldl organize_entry ([], []) pre = ([] @ copies pre, [])"
    by (rule organize_no_embedded[OF npre d(1)]) simp
  obtain entry where en: "edocument entry = cd"
    "organize_entry (copies pre, []) (ck, cd) = (copies pre, [(pk, [entry])])"
    using organize_embedded[OF assms(3), of cd "copies pre" "[]"] by auto
  have disj: "fst ` set (copies pre) \<inter> fst ` set post = {}"
    using copies_keys[of pre] d(5) by blast
  have 3: "foldl organize_entry (copies pre, [(pk, [entry])]) post
           = (copies pre @ copies post, [(pk, [entry])])"
    by (rule organize_no_embedded[OF npost d(2) disj])
  have nt: "\<not> is_top_level ck"
    using embedded_not_top_level[OF assms(3)] .
  have c: "copies store = copies pre @ copies post"
    unfolding s using nt by (simp add: copies_def)
  have "foldl organize_entry ([], []) (pre @ (ck, cd) # post) = (copies pre @ copies post, [(pk, [entry])])"
    by (simp add: 1 en(2) 3)
  then have "foldl organize_entry ([], []) store = (copies store, [(pk, [entry])])"
    using c s by simp
  with en(1) show ?thesis by blast
qed


lemma map_other_keys:
  "pk \<notin> fst ` set l \<Longrightarrow> map (\<lambda>(k, v). (k, if k = pk then f v else v)) l = l"
  by (induction l) auto

lemma attach_as_map:
  "distinct (map fst l) \<Longrightarrow>
   (case map_of l pk of None \<Rightarrow> l | Some v \<Rightarrow> assign pk (f v) l)
   = map (\<lambda>(k, v). (k, if k = pk then f v else v)) l"
proof (induction l)
  case Nil
  show ?case by simp
next
  case (Cons x l)
  obtain k v where x: "x = (k, v)" by (cases x)
  show ?case
  proof (cases "k = pk")
    case True
    then have "pk \<notin> fst ` set l" using Cons.prems x by auto
    then show ?thesis using True x by (simp add: map_other_keys)
  next
    case False
    have "distinct (map fst l)" using Cons.prems by simp
    from Cons.IH[OF this] False x show ?thesis
      by (auto split: option.splits)
  qed
qed

lemma copies_fst: "map fst (copies xs) = filter is_top_level (map fst xs)"
  by (induction xs) (auto simp: copies_def)

lemma distinct_copies: "distinct (map fst xs) \<Longrightarrow> distinct (map fst (copies xs))"
  by (simp add: copies_fst)

lemma map_of_copies:
  "map_of (copies xs) k = (if is_top_level k then map_option own_entries (map_of xs k) else None)"
  by (induction xs) (auto simp: copies_def)

lemma map_of_attached:
  "map_of (attached pk cd l) k
   = map_option (\<lambda>v. if k = pk then assign ''embedded'' (JArr [cd]) v else v) (map_of l k)"
  by (induction l) (auto simp: attached_def)

lemma organizeDocuments_one_embedded:
  assumes "distinct (map fst store)" "(ck, cd) \<in> set store" "embedded_parent ck = Some pk"
    "\<forall>(k, d)\<in>set store. k \<noteq> ck \<longrightarrow> embedded_parent k = None"
  shows "fst (organizeDocuments store) = attached pk cd (copies store)"
proof -
  from organize_one_embedded[OF assms] obtain entry where en: "edocument entry = cd"
    "foldl organize_entry ([], []) store = (copies store, [(pk, [entry])])"
    by blast
  have "fst (organizeDocuments store) = attach_embedded (copies store) (pk, [entry])"
    by (simp add: organizeDocuments_def en(2))
  also have "\<dots> = (case map_of (copies store) pk of
                      None \<Rightarrow> copies store
                    | Some v \<Rightarrow> assign pk (assign ''embedded'' (JArr [cd]) v) (copies store))"
    by (simp add: attach_embedded_def en(1) cong: option.case_cong)
  also have "\<dots> = attached pk cd (copies store)"
    unfolding attached_def
    by (rule attach_as_map[OF distinct_copies[OF assms(1)]])
  finally show ?thesis .
qed

lemma attached_absent:
  assumes "\<not> (is_top_level pk \<and> pk \<in> fst ` set store)"
  shows "attached pk cd (copies store) = copies store"
proof -
  have "set (map fst (copies store)) = {k \<in> fst ` set store. is_top_level k}"
    by (auto simp: copies_fst)
  then have "pk \<notin> fst ` set (copies store)"
    using assms by auto
  then show ?thesis
    unfolding attached_def by (rule map_other_keys)
qed


lemma map_of_foldl_assign:
  "map_of (foldl (\<lambda>t q. assign q v t) l qs) q = (if q \<in> set qs then Some v else map_of l q)"
  by (induction qs arbitrary: l) (auto simp: map_of_assign)

lemma await_tick_idle: "idle w \<Longrightarrow> await_tick w = w\<lparr>clock := Suc (clock w)\<rparr>"
  by (auto simp: idle_def await_tick_def)

lemma idle_emit [simp]: "idle (emit e w) = idle w"
  by (simp add: idle_def emit_def)

lemma node_at_emit [simp]: "node_at (emit e w) q = node_at w q"
  by (simp add: node_at_def emit_def)

lemma idle_warned [simp]: "idle (warned ws w) = idle w"
  unfolding warned_def by (induction ws arbitrary: w) simp_all

lemma node_at_warned [simp]: "node_at (warned ws w) q = node_at w q"
  unfolding warned_def by (induction ws arbitrary: w) simp_all

lemma tick_fields:
  "denied (w\<lparr>clock := n\<rparr>) = denied w" "nodes (w\<lparr>clock := n\<rparr>) = nodes w"
  "is_file (w\<lparr>clock := n\<rparr>) = is_file w" "node_at (w\<lparr>clock := n\<rparr>) = node_at w"
  "is_dir (w\<lparr>clock := n\<rparr>) = is_dir w" "idle (w\<lparr>clock := n\<rparr>) = idle w"
  by (simp_all add: is_file_def node_at_def is_dir_def idle_def fun_eq_iff)

lemma fs_mkdir_idle_unfold:
  assumes "idle w"
  shows "fs_mkdir p w =
     (if p \<in> set (denied w) then (w\<lparr>clock := Suc (clock w)\<rparr>, Some (FsError ''EACCES'' p))
      else if is_file w p then (w\<lparr>clock := Suc (clock w)\<rparr>, Some (FsError ''EEXIST'' p))
      else if list_ex (is_file w) (prefixes p)
        then (w\<lparr>clock := Suc (clock w)\<rparr>, Some (FsError ''ENOTDIR'' p))
      else (emit (FsMkdir p)
              (w\<lparr>clock := Suc (clock w),
                 nodes := foldl (\<lambda>t q. assign q Dir t) (nodes w) (prefixes p)\<rparr>),
            None))"
  unfolding fs_mkdir_def await_tick_idle[OF assms] Let_def tick_fields by simp


lemma fs_mkdir_idle:
  assumes "idle w" "fs_mkdir p w = (w', r)"
  shows "idle w' \<and> (node_at w q = Some (File x) \<longrightarrow> node_at w' q = Some (File x))"
proof (cases "p \<in> set (denied w) \<or> is_file w p \<or> list_ex (is_file w) (prefixes p)")
  case True
  then have "w' = w\<lparr>clock := Suc (clock w)\<rparr>"
    using assms(2) unfolding fs_mkdir_idle_unfold[OF assms(1)] by (auto split: if_splits)
  then show ?thesis using assms(1) by (simp add: tick_fields)
next
  case False
  then have w': "w' = emit (FsMkdir p)
              (w\<lparr>clock := Suc (clock w),
                 nodes := foldl (\<lambda>t q. assign q Dir t) (nodes w) (prefixes p)\<rparr>)"
    using assms(2) unfolding fs_mkdir_idle_unfold[OF assms(1)] by simp
  have i: "idle w'"
    using assms(1) by (simp add: w' idle_def emit_def)
  have n: "node_at w' q = (if q \<in> set (prefixes p) then Some Dir else node_at w q)"
    by (simp add: w' node_at_def emit_def map_of_foldl_assign)
  have "q \<notin> set (prefixes p)" if "node_at w q = Some (File x)"
  proof
    assume "q \<in> set (prefixes p)"
    moreover have "is_file w q" using that by (simp add: is_file_def)
    ultimately have "list_ex (is_file w) (prefixes p)"
      by (auto simp: list_ex_iff)
    with False show False by simp
  qed
  with i n show ?thesis by simp
qed

lemma fs_writeFile_idle_unfold:
  assumes "idle w"
  shows "fs_writeFile p v w =
     (if p \<in> set (denied w) then (w\<lparr>clock := Suc (clock w)\<rparr>, Some (FsError ''EACCES'' p))
      else if p = [] \<or> node_at w p = Some Dir
        then (w\<lparr>clock := Suc (clock w)\<rparr>, Some (FsError ''EISDIR'' p))
      else if \<not> is_dir w (butlast p)
        then (w\<lparr>clock := Suc (clock w)\<rparr>, Some (FsError ''ENOENT'' p))
      else (emit (FsWrite p v)
              (w\<lparr>clock := Suc (clock w), nodes := assign p (File v) (nodes w)\<rparr>),
            None))"
  unfolding fs_writeFile_def await_tick_idle[OF assms] Let_def tick_fields by simp

lemma fs_writeFile_idle:
  assumes "idle w" "fs_writeFile p v w = (w', r)"
  shows "idle w' \<and> (q \<noteq> p \<longrightarrow> node_at w' q = node_at w q)"
proof (cases "p \<in> set (denied w) \<or> (p = [] \<or> node_at w p = Some Dir) \<or> \<not> is_dir w (butlast p)")
  case True
  then have "w' = w\<lparr>clock := Suc (clock w)\<rparr>"
    using assms(2) unfolding fs_writeFile_idle_unfold[OF assms(1)] by (auto split: if_splits)
  then show ?thesis using assms(1) by (simp add: tick_fields)
next
  case False
  then have w': "w' = emit (FsWrite p v)
              (w\<lparr>clock := Suc (clock w), nodes := assign p (File v) (nodes w)\<rparr>)"
    using assms(2) unfolding fs_writeFile_idle_unfold[OF assms(1)] by simp
  have "idle w'"
    using assms(1) by (simp add: w' idle_def emit_def)
  moreover have "node_at w' q = ((node_at w)(p \<mapsto> File v)) q"
    by (simp add: w' node_at_def emit_def map_of_assign)
  ultimately show ?thesis by simp
qed

lemma extract_document_preserves:
  assumes "idle w" "resolveFolderPath d fd = Some (fp, ws)"
    "extract_document c fd (w, n) (k, d) = Some (w', n')"
  shows "idle w' \<and> (target_file c d fp \<noteq> q \<and> node_at w q = Some (File x)
                      \<longrightarrow> node_at w' q = Some (File x))"
proof -
  obtain w1 r1 where m: "fs_mkdir (target_dir c fp) (warned ws w) = (w1, r1)"
    by (cases "fs_mkdir (target_dir c fp) (warned ws w)") auto
  have iw: "idle (warned ws w)" using assms(1) by simp
  note m1 = fs_mkdir_idle[OF iw m, of q x]
  show ?thesis
  proof (cases r1)
    case (Some e)
    then have "w' = emit (ErrExtract k e) w1"
      using assms(3) m by (simp add: extract_document_unfold[OF assms(2)])
    then show ?thesis using m1 by simp
  next
    case None
    obtain w2 r2 where wr: "fs_writeFile (target_file c d fp) (JObj d) w1 = (w2, r2)"
      by (cases "fs_writeFile (target_file c d fp) (JObj d) w1") auto
    have i1: "idle w1" using m1 by simp
    note w2 = fs_writeFile_idle[OF i1 wr, of q]
    have "w' = w2 \<or> (\<exists>e. w' = emit (ErrExtract k e) w2)"
      using assms(3) m wr None
      by (cases r2) (auto simp: extract_document_unfold[OF assms(2)])
    then show ?thesis using m1 w2 by auto
  qed
qed


lemma for_each_preserves:
  assumes "idle w" "\<forall>(k, d)\<in>set docs. resolveFolderPath d fd \<noteq> None"
    "\<forall>(k, d)\<in>set docs. file_of c fd d \<noteq> q"
    "for_each (extract_document c fd) docs (w, n) = Some (w', n')"
  shows "idle w' \<and> (node_at w q = Some (File x) \<longrightarrow> node_at w' q = Some (File x))"
  using assms
proof (induction docs arbitrary: w n)
  case Nil
  then show ?case by simp
next
  case (Cons y docs)
  obtain k d where y: "y = (k, d)" by (cases y)
  from Cons.prems(2) y obtain fp ws where r: "resolveFolderPath d fd = Some (fp, ws)"
    by auto
  have f: "target_file c d fp \<noteq> q"
    using Cons.prems(3) y by (simp add: file_of_def r)
  from Cons.prems(4) y obtain w1 n1 where
    s1: "extract_document c fd (w, n) (k, d) = Some (w1, n1)"
    and s2: "for_each (extract_document c fd) docs (w1, n1) = Some (w', n')"
    by (cases "extract_document c fd (w, n) (k, d)") auto
  note p1 = extract_document_preserves[OF Cons.prems(1) r s1, of q x]
  have "idle w1" using p1 by simp
  moreover have "\<forall>(k, d)\<in>set docs. resolveFolderPath d fd \<noteq> None"
    "\<forall>(k, d)\<in>set docs. file_of c fd d \<noteq> q"
    using Cons.prems(2,3) by simp_all
  ultimately have "idle w' \<and> (node_at w1 q = Some (File x) \<longrightarrow> node_at w' q = Some (File x))"
    using Cons.IH s2 by blast
  with p1 f show ?case by simp
qed

lemma for_each_trace:
  assumes "\<forall>(k, d)\<in>set docs. resolveFolderPath d fd \<noteq> None"
    "for_each (extract_document c fd) docs (w, n) = Some (w', n')"
  shows "set (trace w) \<subseteq> set (trace w')"
proof -
  from for_each_documents[OF assms(1), of c w n] assms(2)
  obtain es where "trace w' = trace w @ es" by auto
  then show ?thesis by simp
qed

lemma for_each_parent_file:
  assumes "idle w" "\<forall>(k, d)\<in>set docs. resolveFolderPath d fd \<noteq> None"
    "distinct (map fst docs)" "(pk, pdoc) \<in> set docs"
    "\<forall>(k, d)\<in>set docs. k \<noteq> pk \<longrightarrow> file_of c fd d \<noteq> file_of c fd pdoc"
    "for_each (extract_document c fd) docs (w, n) = Some (w', n')"
    "\<forall>e. ErrExtract pk e \<notin> set (trace w')"
  shows "node_at w' (file_of c fd pdoc) = Some (File (JObj pdoc))"
  using assms
proof (induction docs arbitrary: w n)
  case Nil
  then show ?case by simp
next
  case (Cons y docs)
  obtain k d where y: "y = (k, d)" by (cases y)
  from Cons.prems(2) y obtain fp ws where r: "resolveFolderPath d fd = Some (fp, ws)"
    by auto
  from Cons.prems(6) y obtain w1 n1 where
    s1: "extract_document c fd (w, n) (k, d) = Some (w1, n1)"
    and s2: "for_each (extract_document c fd) docs (w1, n1) = Some (w', n')"
    by (cases "extract_document c fd (w, n) (k, d)") auto
  have rest: "\<forall>(k, d)\<in>set docs. resolveFolderPath d fd \<noteq> None"
    using Cons.prems(2) by simp
  have i1: "idle w1"
    using extract_document_preserves[OF Cons.prems(1) r s1] by simp
  show ?case
  proof (cases "k = pk")
    case True
    then have d: "d = pdoc"
      using Cons.prems(3,4) y by (force simp: image_iff)
    have tf: "file_of c fd pdoc = target_file c pdoc fp"
      using r d by (simp add: file_of_def)
    have others: "\<forall>(k, d)\<in>set docs. file_of c fd d \<noteq> file_of c fd pdoc"
    proof (clarify)
      fix k' d' assume m: "(k', d') \<in> set docs" and e: "file_of c fd d' = file_of c fd pdoc"
      have "k' \<noteq> pk" using m Cons.prems(3) y True by force
      with m e Cons.prems(5) show False by auto
    qed
    from extract_document_cases[OF r, of c w n k]
    consider (written) w2 where "extract_document c fd (w, n) (k, d) = Some (w2, Suc n)"
        "node_at w2 (target_file c d fp) = Some (File (JObj d))"
      | (failed) w2 es e where "extract_document c fd (w, n) (k, d) = Some (w2, n)"
        "trace w2 = trace w @ es @ [ErrExtract k e]"
      by blast
    then show ?thesis
    proof cases
      case written
      then have "w2 = w1" using s1 by simp
      then have "node_at w1 (file_of c fd pdoc) = Some (File (JObj pdoc))"
        using written(2) d tf by simp
      then show ?thesis
        using for_each_preserves[OF i1 rest others s2] by simp
    next
      case failed
      then have "w2 = w1" using s1 by simp
      then have "ErrExtract pk e \<in> set (trace w1)"
        using failed(2) True by simp
      then have "ErrExtract pk e \<in> set (trace w')"
        using for_each_trace[OF rest s2] by blast
      with Cons.prems(7) show ?thesis by blast
    qed
  next
    case False
    have "(pk, pdoc) \<in> set docs" using Cons.prems(4) y False by auto
    moreover have "distinct (map fst docs)" using Cons.prems(3) by simp
    moreover have "\<forall>(k, d)\<in>set docs. k \<noteq> pk \<longrightarrow> file_of c fd d \<noteq> file_of c fd pdoc"
      using Cons.prems(5) by simp
    ultimately show ?thesis
      using Cons.IH[OF i1 rest _ _ _ s2 Cons.prems(7)] by blast
  qed
qed


lemma attached_fst: "map fst (attached pk cd l) = map fst l"
  by (induction l) (auto simp: attached_def)

lemma extractDocuments_parent_file:
  assumes "idle w"
    "\<forall>(k, d)\<in>set (fst (organizeDocuments store)). resolveFolderPath d fd \<noteq> None"
    "distinct (map fst (fst (organizeDocuments store)))"
    "map_of (fst (organizeDocuments store)) pk = Some pdoc"
    "\<forall>(k, d)\<in>set (fst (organizeDocuments store)). k \<noteq> pk \<longrightarrow> file_of c fd d \<noteq> file_of c fd pdoc"
    "extractDocuments c store fd w = Some w'"
    "\<forall>e. ErrExtract pk e \<notin> set (trace w')"
  shows "node_at w' (file_of c fd pdoc) = Some (File (JObj pdoc))"
proof -
  obtain tops emb where o: "organizeDocuments store = (tops, emb)"
    by (cases "organizeDocuments store")
  from assms(6) o obtain w1 n where l: "for_each (extract_document c fd) tops (w, 0) = Some (w1, n)"
    and w': "w' = emit (LogCount n) w1"
    by (auto simp: extractDocuments_def split: option.splits)
  have m: "(pk, pdoc) \<in> set tops"
    using assms(4) o by (auto dest: map_of_SomeD)
  have e: "\<forall>e. ErrExtract pk e \<notin> set (trace w1)"
    using assms(7) by (simp add: w' emit_def)
  have "node_at w1 (file_of c fd pdoc) = Some (File (JObj pdoc))"
    using for_each_parent_file[OF assms(1) _ _ m _ l e] assms(2,3,5) o by simp
  then show ?thesis by (simp add: w')
qed

lemma extractDocuments_returns:
  assumes "\<forall>(k, d)\<in>set (fst (organizeDocuments store)). resolveFolderPath d fd \<noteq> None"
  shows "\<exists>w'. extractDocuments c store fd w = Some w'"
proof -
  obtain tops emb where o: "organizeDocuments store = (tops, emb)"
    by (cases "organizeDocuments store")
  from for_each_documents[of tops fd c w 0] assms o obtain w1 n where
    "for_each (extract_document c fd) tops (w, 0) = Some (w1, n)"
    by auto
  then show ?thesis using o by (simp add: extractDocuments_def)
qed

text \<open>
  C4, as stated, fails where two documents have the same file: the actors \<^verbatim>\<open>P1\<close> and
  \<^verbatim>\<open>P2\<close> are both named \<^verbatim>\<open>A\<close>, the item \<^verbatim>\<open>C1\<close> is attached to \<^verbatim>\<open>P1\<close>, whose
  document is written to \<^verbatim>\<open>A.json\<close> with its \<^verbatim>\<open>embedded\<close> array, and the document of
  \<^verbatim>\<open>P2\<close> is written to \<^verbatim>\<open>A.json\<close> after it: the file of the parent holds no
  \<^verbatim>\<open>embedded\<close> array.
\<close>

theorem embedded_parent_file_overwritten:
  "embedded_parent ''!actor.item!P1.C1'' = Some ''!actor!P1''
   \<and> map_of (fst (organizeDocuments (own_entries same_names))) ''!actor!P1''
       = Some [(''name'', JStr ''A''), (''embedded'', JArr [JObj [(''name'', JStr ''c'')]])]
   \<and> outcome (run_extract actors None (stored same_names []))
       = Some (Inr (),
          [LogNoPackFolder [''repo'', ''packsrc'', ''actors''],
           FsMkdir [''repo'', ''packsrc'', ''actors''], LogNoFolders,
           FsMkdir [''repo'', ''packsrc'', ''actors''],
           FsWrite [''repo'', ''packsrc'', ''actors'', ''A.json'']
             (JObj [(''name'', JStr ''A''), (''embedded'', JArr [JObj [(''name'', JStr ''c'')]])]),
           FsMkdir [''repo'', ''packsrc'', ''actors''],
           FsWrite [''repo'', ''packsrc'', ''actors'', ''A.json''] (JObj [(''name'', JStr ''A'')]),
           LogCount 2, LogCompleted [''repo'', ''packs'', ''actors.db'']],
          [])
   \<and> output_of actors (run_extract actors None (stored same_names []))
       = Some [([''repo'', ''packsrc'', ''actors''], Dir),
               ([''repo'', ''packsrc'', ''actors'', ''A.json''], File (JObj [(''name'', JStr ''A'')]))]"
  by code_simp

text \<open>
  C4, amended. Let a store with distinct keys hold exactly one record that the partition
  takes as embedded, with the body \<open>cd\<close> and the parent key \<open>pk\<close>. Then the documents of
  the write loop are the shallow copies of the top-level records, in the order of the
  store, the one at \<open>pk\<close> with \<^verbatim>\<open>embedded\<close> set to the array of the one element \<open>cd\<close>.
  So with a top-level document at \<open>pk\<close>, the document written for \<open>pk\<close> has this
  \<^verbatim>\<open>embedded\<close> array, and its file holds this document after the loop when no deletion
  is pending, no error is logged for \<open>pk\<close> and no other top-level document has the same
  file; without a top-level document at \<open>pk\<close> no document of the loop carries the child;
  and the loop ends without an error when the walks through the folders end.
\<close>

theorem embedded_attached_to_parent:
  assumes "distinct (map fst store)" "(ck, cd) \<in> set store" "embedded_parent ck = Some pk"
    "\<forall>(k, d)\<in>set store. k \<noteq> ck \<longrightarrow> embedded_parent k = None"
  shows "fst (organizeDocuments store) = attached pk cd (copies store)
    \<and> (is_top_level pk \<and> map_of store pk = Some pd \<longrightarrow>
         map_of (fst (organizeDocuments store)) pk
           = Some (assign ''embedded'' (JArr [cd]) (own_entries pd))
         \<and> map_of (assign ''embedded'' (JArr [cd]) (own_entries pd)) ''embedded'' = Some (JArr [cd]))
    \<and> (is_top_level pk \<and> map_of store pk = Some pd \<and> idle w
         \<and> (\<forall>(k, d)\<in>set (fst (organizeDocuments store)). resolveFolderPath d fd \<noteq> None)
         \<and> extractDocuments c store fd w = Some w'
         \<and> (\<forall>e. ErrExtract pk e \<notin> set (trace w'))
         \<and> (\<forall>(k, d)\<in>set (fst (organizeDocuments store)). k \<noteq> pk \<longrightarrow>
               file_of c fd d \<noteq> file_of c fd (assign ''embedded'' (JArr [cd]) (own_entries pd)))
        \<longrightarrow> node_at w' (file_of c fd (assign ''embedded'' (JArr [cd]) (own_entries pd)))
             = Some (File (JObj (assign ''embedded'' (JArr [cd]) (own_entries pd)))))
    \<and> (\<not> (is_top_level pk \<and> pk \<in> fst ` set store) \<longrightarrow>
         fst (organizeDocuments store) = copies store)
    \<and> ((\<forall>(k, d)\<in>set (fst (organizeDocuments store)). resolveFolderPath d fd \<noteq> None) \<longrightarrow>
         (\<exists>w1. extractDocuments c store fd w = Some w1))"
proof -
  let ?pdoc = "assign ''embedded'' (JArr [cd]) (own_entries pd)"
  have o: "fst (organizeDocuments store) = attached pk cd (copies store)"
    using assms by (rule organizeDocuments_one_embedded)
  have p: "map_of (fst (organizeDocuments store)) pk = Some ?pdoc"
    if "is_top_level pk" "map_of store pk = Some pd"
    using that by (simp add: o map_of_attached map_of_copies)
  have dist: "distinct (map fst (fst (organizeDocuments store)))"
    by (simp add: o attached_fst distinct_copies[OF assms(1)])
  have 2: "is_top_level pk \<and> map_of store pk = Some pd \<longrightarrow>
         map_of (fst (organizeDocuments store)) pk = Some ?pdoc
         \<and> map_of ?pdoc ''embedded'' = Some (JArr [cd])"
    using p by (simp add: map_of_assign)
  have 3: "is_top_level pk \<and> map_of store pk = Some pd \<and> idle w
         \<and> (\<forall>(k, d)\<in>set (fst (organizeDocuments store)). resolveFolderPath d fd \<noteq> None)
         \<and> extractDocuments c store fd w = Some w'
         \<and> (\<forall>e. ErrExtract pk e \<notin> set (trace w'))
         \<and> (\<forall>(k, d)\<in>set (fst (organizeDocuments store)). k \<noteq> pk \<longrightarrow>
               file_of c fd d \<noteq> file_of c fd ?pdoc)
        \<longrightarrow> node_at w' (file_of c fd ?pdoc) = Some (File (JObj ?pdoc))"
  proof (intro impI, elim conjE)
    assume a: "is_top_level pk" "map_of store pk = Some pd" "idle w"
      "\<forall>(k, d)\<in>set (fst (organizeDocuments store)). resolveFolderPath d fd \<noteq> None"
      "extractDocuments c store fd w = Some w'"
      "\<forall>e. ErrExtract pk e \<notin> set (trace w')"
      "\<forall>(k, d)\<in>set (fst (organizeDocuments store)). k \<noteq> pk \<longrightarrow>
               file_of c fd d \<noteq> file_of c fd ?pdoc"
    show "node_at w' (file_of c fd ?pdoc) = Some (File (JObj ?pdoc))"
      by (rule extractDocuments_parent_file[OF a(3) a(4) dist p[OF a(1,2)] a(7) a(5) a(6)])
  qed
  have 4: "\<not> (is_top_level pk \<and> pk \<in> fst ` set store) \<longrightarrow>
         fst (organizeDocuments store) = copies store"
    using attached_absent[of pk store cd] o by simp
  have 5: "(\<forall>(k, d)\<in>set (fst (organizeDocuments store)). resolveFolderPath d fd \<noteq> None) \<longrightarrow>
         (\<exists>w1. extractDocuments c store fd w = Some w1)"
    using extractDocuments_returns by blast
  from o 2 3 4 5 show ?thesis by (intro conjI)
qed


theorem embedded_attached_to_parent_witness:
  "fst (organizeDocuments family)
     = [(''!actor!P1'', [(''name'', JStr ''A''), (''embedded'', JArr [JObj [(''name'', JStr ''c'')]])]),
        (''!actor!P2'', [(''name'', JStr ''B'')])]
   \<and> (\<exists>w'. extractDocuments actors family [] (stored JNull pack_tree) = Some w'
          \<and> node_at w' [''repo'', ''packsrc'', ''actors'', ''A.json'']
              = Some (File (JObj [(''name'', JStr ''A''),
                                  (''embedded'', JArr [JObj [(''name'', JStr ''c'')]])])))
   \<and> fst (organizeDocuments orphan) = [(''!actor!P2'', [(''name'', JStr ''B'')])]
   \<and> (\<exists>w'. extractDocuments actors orphan [] (stored JNull pack_tree) = Some w')"
proof -
  let ?w = "stored JNull pack_tree"
  let ?ck = "''!actor.item!P1.C1''" and ?pk = "''!actor!P1''"
  let ?cd = "JObj [(''name'', JStr ''c'')]" and ?pd = "JObj [(''name'', JStr ''A'')]"
  let ?pdoc = "[(''name'', JStr ''A''), (''embedded'', JArr [JObj [(''name'', JStr ''c'')]])]"
  have f1: "distinct (map fst family)" by code_simp
  have f2: "(?ck, ?cd) \<in> set family" by code_simp
  have f3: "embedded_parent ?ck = Some ?pk" by code_simp
  have f4: "\<forall>(k, d)\<in>set family. k \<noteq> ?ck \<longrightarrow> embedded_parent k = None" by code_simp
  have g1: "distinct (map fst orphan)" by code_simp
  have g2: "(?ck, ?cd) \<in> set orphan" by code_simp
  have g4: "\<forall>(k, d)\<in>set orphan. k \<noteq> ?ck \<longrightarrow> embedded_parent k = None" by code_simp
  have t: "is_top_level ?pk" by code_simp
  have p: "map_of family ?pk = Some ?pd" by code_simp
  have i: "idle ?w" by code_simp
  have a: "assign ''embedded'' (JArr [?cd]) (own_entries ?pd) = ?pdoc" by code_simp
  have c1: "attached ?pk ?cd (copies family)
            = [(?pk, ?pdoc), (''!actor!P2'', [(''name'', JStr ''B'')])]" by code_simp
  have c2: "copies orphan = [(''!actor!P2'', [(''name'', JStr ''B'')])]" by code_simp
  have ab: "\<not> (is_top_level ?pk \<and> ?pk \<in> fst ` set orphan)" by code_simp
  have fo: "file_of actors [] ?pdoc = [''repo'', ''packsrc'', ''actors'', ''A.json'']" by code_simp
  have tr: "map_option trace (extractDocuments actors family [] ?w)
            = Some [FsMkdir [''repo'', ''packsrc'', ''actors''],
                    FsWrite [''repo'', ''packsrc'', ''actors'', ''A.json''] (JObj ?pdoc),
                    FsMkdir [''repo'', ''packsrc'', ''actors''],
                    FsWrite [''repo'', ''packsrc'', ''actors'', ''B.json''] (JObj [(''name'', JStr ''B'')]),
                    LogCount 2]"
    by code_simp
  note A = embedded_attached_to_parent[OF f1 f2 f3 f4, of ?pd ?w "[]" actors]
  note B = embedded_attached_to_parent[OF g1 g2 f3 g4, of ?pd ?w "[]" actors]
  have oa: "fst (organizeDocuments family) = [(?pk, ?pdoc), (''!actor!P2'', [(''name'', JStr ''B'')])]"
    using A[of ?w, THEN conjunct1] c1 by (rule trans)
  have ra: "\<forall>(k, d)\<in>set (fst (organizeDocuments family)). resolveFolderPath d [] \<noteq> None"
    unfolding oa by code_simp
  have others: "\<forall>(k, d)\<in>set (fst (organizeDocuments family)). k \<noteq> ?pk \<longrightarrow>
                  file_of actors [] d \<noteq> file_of actors [] ?pdoc"
    unfolding oa by code_simp
  from A[of ?w] ra obtain w' where w': "extractDocuments actors family [] ?w = Some w'"
    by blast
  have "trace w' = [FsMkdir [''repo'', ''packsrc'', ''actors''],
                    FsWrite [''repo'', ''packsrc'', ''actors'', ''A.json''] (JObj ?pdoc),
                    FsMkdir [''repo'', ''packsrc'', ''actors''],
                    FsWrite [''repo'', ''packsrc'', ''actors'', ''B.json''] (JObj [(''name'', JStr ''B'')]),
                    LogCount 2]"
    using tr w' by simp
  then have ne: "\<forall>e. ErrExtract ?pk e \<notin> set (trace w')"
    by simp
  have "node_at w' (file_of actors [] ?pdoc) = Some (File (JObj ?pdoc))"
    using A[of w'] t p i ra w' ne others unfolding a by blast
  then have na: "\<exists>w'. extractDocuments actors family [] ?w = Some w'
          \<and> node_at w' [''repo'', ''packsrc'', ''actors'', ''A.json''] = Some (File (JObj ?pdoc))"
    using w' fo by auto
  have ob: "fst (organizeDocuments orphan) = [(''!actor!P2'', [(''name'', JStr ''B'')])]"
  proof -
    have "fst (organizeDocuments orphan) = copies orphan"
      using B[of ?w] ab by blast
    then show ?thesis using c2 by (rule trans)
  qed
  have rb: "\<forall>(k, d)\<in>set (fst (organizeDocuments orphan)). resolveFolderPath d [] \<noteq> None"
    unfolding ob by code_simp
  have nb: "\<exists>w'. extractDocuments actors orphan [] ?w = Some w'"
    using B[of ?w] rb by blast
  from oa na ob nb show ?thesis by (intro conjI)
qed

section \<open>The write loop and the file tree\<close>

lemma json_name_long: "s \<noteq> [] \<Longrightarrow> s @ ''.json'' \<noteq> [] \<and> s @ ''.json'' \<noteq> ''.'' \<and> s @ ''.json'' \<noteq> ''..''"
proof -
  assume "s \<noteq> []"
  then have "length (s @ ''.json'') \<ge> 6" by (cases s) simp_all
  then show ?thesis by auto
qed

lemma sanitizeFilename_ne: "sanitizeFilename v \<noteq> []"
  by (simp add: sanitizeFilename_def sanitize_string_nonempty split: option.splits json.splits)

lemma target_file_snoc:
  "target_file c d fp = target_dir c fp @ [sanitizeFilename (map_of d ''name'') @ ''.json'']"
  using json_name_long[OF sanitizeFilename_ne, of "map_of d ''name''"]
  by (simp add: target_file_def path_join_def norm_step_def)

lemma in_prefixes: "p \<noteq> [] \<Longrightarrow> p \<in> set (prefixes p)"
proof -
  assume "p \<noteq> []"
  then have "length p \<in> set [1..<Suc (length p)]" by (cases p) auto
  then have "take (length p) p \<in> set (prefixes p)"
    unfolding prefixes_def by (simp only: set_map) (rule imageI)
  then show ?thesis by simp
qed

lemma snoc_not_prefix: "p @ [x] \<notin> set (prefixes p)"
proof
  assume "p @ [x] \<in> set (prefixes p)"
  then obtain n where "p @ [x] = take n p" by (auto simp: prefixes_def)
  then have "length (p @ [x]) = length (take n p)" by simp
  then show False by simp
qed


lemma denied_emit [simp]: "denied (emit e w) = denied w"
  by (simp add: emit_def)

lemma denied_warned [simp]: "denied (warned ws w) = denied w"
  unfolding warned_def by (induction ws arbitrary: w) simp_all

lemma is_file_emit [simp]: "is_file (emit e w) = is_file w"
  by (simp add: is_file_def fun_eq_iff)

lemma is_file_warned [simp]: "is_file (warned ws w) = is_file w"
  by (simp add: is_file_def fun_eq_iff)

lemma mkdir_denied:
  assumes "idle w" "p \<in> set (denied w)"
  shows "\<exists>w'. fs_mkdir p w = (w', Some (FsError ''EACCES'' p)) \<and> idle w'
           \<and> denied w' = denied w \<and> node_at w' = node_at w \<and> trace w' = trace w"
proof -
  let ?w' = "w\<lparr>clock := Suc (clock w)\<rparr>"
  have "fs_mkdir p w = (?w', Some (FsError ''EACCES'' p))"
    using assms(2) by (simp add: fs_mkdir_idle_unfold[OF assms(1)])
  moreover have "idle ?w'" "denied ?w' = denied w" "node_at ?w' = node_at w" "trace ?w' = trace w"
    using assms(1) by (simp_all add: tick_fields)
  ultimately show ?thesis by blast
qed

lemma mkdir_ok:
  assumes "idle w" "p \<notin> set (denied w)" "\<not> is_file w p" "\<not> list_ex (is_file w) (prefixes p)"
  shows "\<exists>w'. fs_mkdir p w = (w', None) \<and> idle w' \<and> denied w' = denied w
           \<and> (\<forall>q. node_at w' q = (if q \<in> set (prefixes p) then Some Dir else node_at w q))
           \<and> trace w' = trace w @ [FsMkdir p]"
proof -
  let ?w' = "emit (FsMkdir p)
              (w\<lparr>clock := Suc (clock w),
                 nodes := foldl (\<lambda>t q. assign q Dir t) (nodes w) (prefixes p)\<rparr>)"
  have "fs_mkdir p w = (?w', None)"
    using assms(2,3,4) by (simp add: fs_mkdir_idle_unfold[OF assms(1)])
  moreover have "idle ?w'"
    using assms(1) by (simp add: idle_def emit_def)
  moreover have "denied ?w' = denied w" by (simp add: emit_def)
  moreover have "\<forall>q. node_at ?w' q = (if q \<in> set (prefixes p) then Some Dir else node_at w q)"
    by (simp add: node_at_def emit_def map_of_foldl_assign)
  moreover have "trace ?w' = trace w @ [FsMkdir p]" by (simp add: emit_def)
  ultimately show ?thesis by blast
qed

lemma write_denied:
  assumes "idle w" "p \<in> set (denied w)"
  shows "\<exists>w'. fs_writeFile p v w = (w', Some (FsError ''EACCES'' p)) \<and> idle w'
           \<and> denied w' = denied w \<and> node_at w' = node_at w \<and> trace w' = trace w"
proof -
  let ?w' = "w\<lparr>clock := Suc (clock w)\<rparr>"
  have "fs_writeFile p v w = (?w', Some (FsError ''EACCES'' p))"
    using assms(2) by (simp add: fs_writeFile_idle_unfold[OF assms(1)])
  moreover have "idle ?w'" "denied ?w' = denied w" "node_at ?w' = node_at w" "trace ?w' = trace w"
    using assms(1) by (simp_all add: tick_fields)
  ultimately show ?thesis by blast
qed

lemma write_ok:
  assumes "idle w" "p \<notin> set (denied w)" "p \<noteq> []" "node_at w p \<noteq> Some Dir"
    "is_dir w (butlast p)"
  shows "\<exists>w'. fs_writeFile p v w = (w', None) \<and> idle w' \<and> denied w' = denied w
           \<and> (\<forall>q. node_at w' q = (if q = p then Some (File v) else node_at w q))
           \<and> trace w' = trace w @ [FsWrite p v]"
proof -
  let ?w' = "emit (FsWrite p v)
              (w\<lparr>clock := Suc (clock w), nodes := assign p (File v) (nodes w)\<rparr>)"
  have "fs_writeFile p v w = (?w', None)"
    using assms(2,3,4,5) by (simp add: fs_writeFile_idle_unfold[OF assms(1)])
  moreover have "idle ?w'"
    using assms(1) by (simp add: idle_def emit_def)
  moreover have "denied ?w' = denied w" by (simp add: emit_def)
  moreover have "\<forall>q. node_at ?w' q = (if q = p then Some (File v) else node_at w q)"
    by (simp add: node_at_def emit_def map_of_assign)
  moreover have "trace ?w' = trace w @ [FsWrite p v]" by (simp add: emit_def)
  ultimately show ?thesis by blast
qed


lemma document_step:
  assumes "idle w" "resolveFolderPath d fd = Some (fp, ws)"
    "\<not> is_file w (dir_of c fd d)" "\<not> list_ex (is_file w) (prefixes (dir_of c fd d))"
    "node_at w (file_of c fd d) \<noteq> Some Dir"
  shows "\<exists>w' n'. extract_document c fd (w, n) (k, d) = Some (w', n')
           \<and> idle w' \<and> denied w' = denied w
           \<and> (\<forall>q. node_at w' q =
                 (if \<not> refused w c fd d \<and> q = file_of c fd d then Some (File (JObj d))
                  else if dir_of c fd d \<notin> set (denied w) \<and> q \<in> set (prefixes (dir_of c fd d))
                    then Some Dir
                  else node_at w q))
           \<and> (\<exists>es. trace w' = trace w @ es
                 \<and> (refused w c fd d \<longrightarrow>
                       n' = n \<and> (\<exists>p\<in>set (denied w). ErrExtract k (FsError ''EACCES'' p) \<in> set es))
                 \<and> (\<not> refused w c fd d \<longrightarrow>
                       n' = Suc n \<and> FsWrite (file_of c fd d) (JObj d) \<in> set es))"
proof -
  let ?D = "target_dir c fp" and ?F = "target_file c d fp"
  let ?w0 = "warned ws w"
  have D: "dir_of c fd d = ?D" and F: "file_of c fd d = ?F"
    by (simp_all add: dir_of_def file_of_def assms(2))
  have Fs: "?F = ?D @ [sanitizeFilename (map_of d ''name'') @ ''.json'']"
    by (rule target_file_snoc)
  have i0: "idle ?w0" using assms(1) by simp
  have d0: "denied ?w0 = denied w" by simp
  have n0: "node_at ?w0 = node_at w" by (simp add: fun_eq_iff)
  have t0: "trace ?w0 = trace w @ map WarnMissingFolder ws" by (rule trace_warned)
  have FnD: "?F \<notin> set (prefixes ?D)"
    unfolding Fs by (rule snoc_not_prefix)
  show ?thesis
  proof (cases "?D \<in> set (denied w)")
    case True
    then have ref: "refused w c fd d" by (simp add: refused_def D)
    from mkdir_denied[OF i0, of ?D] True obtain w1 where m:
      "fs_mkdir ?D ?w0 = (w1, Some (FsError ''EACCES'' ?D))" "idle w1"
      "denied w1 = denied w" "node_at w1 = node_at w" "trace w1 = trace ?w0"
      by (auto simp: n0)
    let ?w' = "emit (ErrExtract k (FsError ''EACCES'' ?D)) w1"
    have x: "extract_document c fd (w, n) (k, d) = Some (?w', n)"
      using m(1) by (simp add: extract_document_unfold[OF assms(2)])
    have tr: "trace ?w' = trace w @ (map WarnMissingFolder ws @ [ErrExtract k (FsError ''EACCES'' ?D)])"
      using m(5) t0 by (simp add: emit_def)
    have ev: "\<exists>es. trace ?w' = trace w @ es
                 \<and> (refused w c fd d \<longrightarrow>
                       n = n \<and> (\<exists>p\<in>set (denied w). ErrExtract k (FsError ''EACCES'' p) \<in> set es))
                 \<and> (\<not> refused w c fd d \<longrightarrow>
                       n = Suc n \<and> FsWrite (file_of c fd d) (JObj d) \<in> set es)"
      using tr True ref by (intro exI[of _ "map WarnMissingFolder ws @ [ErrExtract k (FsError ''EACCES'' ?D)]"]) auto
    have nodes: "\<forall>q. node_at ?w' q =
                 (if \<not> refused w c fd d \<and> q = file_of c fd d then Some (File (JObj d))
                  else if dir_of c fd d \<notin> set (denied w) \<and> q \<in> set (prefixes (dir_of c fd d))
                    then Some Dir
                  else node_at w q)"
      using ref True m(4) by (simp add: D)
    have "idle ?w'" "denied ?w' = denied w" using m(2,3) by simp_all
    with x nodes ev show ?thesis by blast
  next
    case False
    have a3: "\<not> is_file ?w0 ?D" and a4: "\<not> list_ex (is_file ?w0) (prefixes ?D)"
      using assms(3,4) by (simp_all add: D)
    from mkdir_ok[OF i0 _ a3 a4] False obtain w1 where m:
      "fs_mkdir ?D ?w0 = (w1, None)" "idle w1" "denied w1 = denied w"
      "\<forall>q. node_at w1 q = (if q \<in> set (prefixes ?D) then Some Dir else node_at w q)"
      "trace w1 = trace ?w0 @ [FsMkdir ?D]"
      by (auto simp: n0)
    show ?thesis
    proof (cases "?F \<in> set (denied w)")
      case True
      then have ref: "refused w c fd d" by (simp add: refused_def F)
      from write_denied[OF m(2), of ?F "JObj d"] True m(3) obtain w2 where wr:
        "fs_writeFile ?F (JObj d) w1 = (w2, Some (FsError ''EACCES'' ?F))" "idle w2"
        "denied w2 = denied w" "node_at w2 = node_at w1" "trace w2 = trace w1"
        by auto
      let ?w' = "emit (ErrExtract k (FsError ''EACCES'' ?F)) w2"
      have x: "extract_document c fd (w, n) (k, d) = Some (?w', n)"
        using m(1) wr(1) by (simp add: extract_document_unfold[OF assms(2)])
      have tr: "trace ?w' = trace w @ (map WarnMissingFolder ws @ [FsMkdir ?D, ErrExtract k (FsError ''EACCES'' ?F)])"
        using wr(5) m(5) t0 by (simp add: emit_def)
      have e: "\<exists>es. trace ?w' = trace w @ es
                 \<and> (refused w c fd d \<longrightarrow>
                       n = n \<and> (\<exists>p\<in>set (denied w). ErrExtract k (FsError ''EACCES'' p) \<in> set es))
                 \<and> (\<not> refused w c fd d \<longrightarrow>
                       n = Suc n \<and> FsWrite (file_of c fd d) (JObj d) \<in> set es)"
        using tr True ref
        by (intro exI[of _ "map WarnMissingFolder ws @ [FsMkdir ?D, ErrExtract k (FsError ''EACCES'' ?F)]"]) auto
      have nodes: "\<forall>q. node_at ?w' q =
                 (if \<not> refused w c fd d \<and> q = file_of c fd d then Some (File (JObj d))
                  else if dir_of c fd d \<notin> set (denied w) \<and> q \<in> set (prefixes (dir_of c fd d))
                    then Some Dir
                  else node_at w q)"
        using ref False m(4) wr(4) by (simp add: D)
      have "idle ?w'" "denied ?w' = denied w" using wr(2,3) by simp_all
      with x e nodes show ?thesis by blast
    next
      case notF: False
      then have ref: "\<not> refused w c fd d" using False by (simp add: refused_def D F)
      have ne: "?F \<noteq> []" unfolding Fs by simp
      have nd: "node_at w1 ?F \<noteq> Some Dir"
        using m(4) FnD assms(5) by (simp add: F)
      have bl: "butlast ?F = ?D" unfolding Fs by simp
      have "is_dir w1 ?D"
      proof (cases "?D = []")
        case True
        then show ?thesis by (simp add: is_dir_def)
      next
        case False
        then have "?D \<in> set (prefixes ?D)" by (rule in_prefixes)
        then show ?thesis using m(4) by (simp add: is_dir_def)
      qed
      then have dir: "is_dir w1 (butlast ?F)" by (simp add: bl)
      from write_ok[OF m(2) _ ne nd dir, of "JObj d"] notF m(3) obtain w2 where wr:
        "fs_writeFile ?F (JObj d) w1 = (w2, None)" "idle w2" "denied w2 = denied w"
        "\<forall>q. node_at w2 q = (if q = ?F then Some (File (JObj d)) else node_at w1 q)"
        "trace w2 = trace w1 @ [FsWrite ?F (JObj d)]"
        by auto
      have x: "extract_document c fd (w, n) (k, d) = Some (w2, Suc n)"
        using m(1) wr(1) by (simp add: extract_document_unfold[OF assms(2)])
      have tr: "trace w2 = trace w @ (map WarnMissingFolder ws @ [FsMkdir ?D, FsWrite ?F (JObj d)])"
        using wr(5) m(5) t0 by simp
      have e: "\<exists>es. trace w2 = trace w @ es
                 \<and> (refused w c fd d \<longrightarrow>
                       Suc n = n \<and> (\<exists>p\<in>set (denied w). ErrExtract k (FsError ''EACCES'' p) \<in> set es))
                 \<and> (\<not> refused w c fd d \<longrightarrow>
                       Suc n = Suc n \<and> FsWrite (file_of c fd d) (JObj d) \<in> set es)"
        using tr ref
        by (intro exI[of _ "map WarnMissingFolder ws @ [FsMkdir ?D, FsWrite ?F (JObj d)]"]) (auto simp: F)
      have nodes: "\<forall>q. node_at w2 q =
                 (if \<not> refused w c fd d \<and> q = file_of c fd d then Some (File (JObj d))
                  else if dir_of c fd d \<notin> set (denied w) \<and> q \<in> set (prefixes (dir_of c fd d))
                    then Some Dir
                  else node_at w q)"
        using ref False m(4) wr(4) by (simp add: D F)
      from x wr(2,3) nodes e show ?thesis by blast
    qed
  qed
qed


lemma clash_free_parts:
  "clash_free c fd w docs \<longleftrightarrow>
     distinct (map (\<lambda>(k, d). file_of c fd d) docs) \<and> tidy c fd w docs \<and> apart c fd docs"
  unfolding clash_free_def tidy_def apart_def by fastforce

lemma file_of_ne:
  "resolveFolderPath d fd \<noteq> None \<Longrightarrow> file_of c fd d \<noteq> []"
  by (auto simp: file_of_def target_file_snoc)

lemma refused_same: "denied w1 = denied w \<Longrightarrow> refused w1 c fd d = refused w c fd d"
  by (simp add: refused_def)

lemma step_keeps_tidy:
  assumes "tidy c fd w docs" "apart c fd docs" "(k, d) \<in> set docs"
    "\<forall>(k, d)\<in>set docs. resolveFolderPath d fd \<noteq> None"
    "\<forall>q. node_at w' q =
          (if \<not> refused w c fd d \<and> q = file_of c fd d then Some (File (JObj d))
           else if dir_of c fd d \<notin> set (denied w) \<and> q \<in> set (prefixes (dir_of c fd d))
             then Some Dir
           else node_at w q)"
  shows "tidy c fd w' docs"
  unfolding tidy_def
proof (clarify, intro conjI)
  fix k2 d2 assume m: "(k2, d2) \<in> set docs"
  let ?F = "file_of c fd d" and ?D2 = "dir_of c fd d2" and ?F2 = "file_of c fd d2"
  have t: "\<not> is_file w ?D2" "\<not> list_ex (is_file w) (prefixes ?D2)" "node_at w ?F2 \<noteq> Some Dir"
    using assms(1) m by (auto simp: tidy_def)
  have a1: "?F \<notin> set (prefixes ?D2)"
    using assms(2,3) m by (auto simp: apart_def)
  have a2: "?F2 \<notin> set (prefixes (dir_of c fd d))"
    using assms(2,3) m by (auto simp: apart_def)
  have Fne: "?F \<noteq> []"
    using assms(3,4) file_of_ne by fastforce
  have file_new: "is_file w' q \<Longrightarrow> q = ?F \<or> is_file w q" for q
    using assms(5) by (auto simp: is_file_def split: if_splits)
  have "?F \<noteq> ?D2"
  proof
    assume e: "?F = ?D2"
    then have "?D2 \<noteq> []" using Fne by simp
    then have "?D2 \<in> set (prefixes ?D2)" by (rule in_prefixes)
    with a1 e show False by simp
  qed
  then show "\<not> is_file w' ?D2"
    using file_new[of ?D2] t(1) by auto
  show "\<not> list_ex (is_file w') (prefixes ?D2)"
  proof
    assume "list_ex (is_file w') (prefixes ?D2)"
    then obtain q where q: "q \<in> set (prefixes ?D2)" "is_file w' q"
      by (auto simp: list_ex_iff)
    from file_new[OF q(2)] show False
    proof
      assume "q = ?F" with q(1) a1 show False by simp
    next
      assume "is_file w q"
      with q(1) have "list_ex (is_file w) (prefixes ?D2)" by (auto simp: list_ex_iff)
      with t(2) show False by simp
    qed
  qed
  show "node_at w' ?F2 \<noteq> Some Dir"
    using assms(5) a2 t(3) by auto
qed


lemma documents_loop:
  assumes "apart c fd docs" "\<forall>(k, d)\<in>set docs. resolveFolderPath d fd \<noteq> None"
  shows "set xs \<subseteq> set docs \<Longrightarrow> distinct (map (\<lambda>(k, d). file_of c fd d) xs) \<Longrightarrow>
     idle w \<Longrightarrow> tidy c fd w docs \<Longrightarrow>
     \<exists>w' es. for_each (extract_document c fd) xs (w, n)
            = Some (w', n + length (filter (\<lambda>(k, d). \<not> refused w c fd d) xs))
       \<and> idle w' \<and> denied w' = denied w \<and> tidy c fd w' docs
       \<and> trace w' = trace w @ es
       \<and> (\<forall>q. (\<forall>(k, d)\<in>set xs. q \<noteq> file_of c fd d \<and> q \<notin> set (prefixes (dir_of c fd d)))
              \<longrightarrow> node_at w' q = node_at w q)
       \<and> (\<forall>(k, d)\<in>set xs.
             (refused w c fd d \<longrightarrow>
                (\<exists>p\<in>set (denied w). ErrExtract k (FsError ''EACCES'' p) \<in> set es)
                \<and> node_at w' (file_of c fd d) = node_at w (file_of c fd d))
             \<and> (\<not> refused w c fd d \<longrightarrow>
                FsWrite (file_of c fd d) (JObj d) \<in> set es
                \<and> node_at w' (file_of c fd d) = Some (File (JObj d))))"
proof (induction xs arbitrary: w n)
  case Nil
  then show ?case by simp
next
  case (Cons x xs)
  obtain k d where x: "x = (k, d)" by (cases x)
  let ?F = "file_of c fd" and ?Dr = "dir_of c fd"
  have mem: "(k, d) \<in> set docs" using Cons.prems(1) x by simp
  then obtain fp ws where r: "resolveFolderPath d fd = Some (fp, ws)"
    using assms(2) by fastforce
  have t: "\<not> is_file w (?Dr d)" "\<not> list_ex (is_file w) (prefixes (?Dr d))"
    "node_at w (?F d) \<noteq> Some Dir"
    using Cons.prems(4) mem by (auto simp: tidy_def)
  from document_step[OF Cons.prems(3) r t, of n k] obtain w1 n1 es1 where s:
    "extract_document c fd (w, n) (k, d) = Some (w1, n1)" "idle w1" "denied w1 = denied w"
    "\<forall>q. node_at w1 q =
          (if \<not> refused w c fd d \<and> q = ?F d then Some (File (JObj d))
           else if ?Dr d \<notin> set (denied w) \<and> q \<in> set (prefixes (?Dr d)) then Some Dir
           else node_at w q)"
    "trace w1 = trace w @ es1"
    "refused w c fd d \<longrightarrow>
       n1 = n \<and> (\<exists>p\<in>set (denied w). ErrExtract k (FsError ''EACCES'' p) \<in> set es1)"
    "\<not> refused w c fd d \<longrightarrow> n1 = Suc n \<and> FsWrite (?F d) (JObj d) \<in> set es1"
    by blast
  have t1: "tidy c fd w1 docs"
    by (rule step_keeps_tidy[OF Cons.prems(4) assms(1) mem assms(2) s(4)])
  have sub: "set xs \<subseteq> set docs" using Cons.prems(1) by simp
  have dist: "distinct (map (\<lambda>(k, d). ?F d) xs)" using Cons.prems(2) by simp
  have same: "refused w1 c fd d' = refused w c fd d'" for d'
    using s(3) by (rule refused_same)
  from Cons.IH[OF sub dist s(2) t1, of n1] obtain w' es2 where ih:
    "for_each (extract_document c fd) xs (w1, n1)
       = Some (w', n1 + length (filter (\<lambda>(k, d). \<not> refused w c fd d) xs))"
    "idle w'" "denied w' = denied w" "tidy c fd w' docs"
    "trace w' = trace w1 @ es2"
    "\<forall>q. (\<forall>(k, d)\<in>set xs. q \<noteq> ?F d \<and> q \<notin> set (prefixes (?Dr d)))
          \<longrightarrow> node_at w' q = node_at w1 q"
    "\<forall>(k, d)\<in>set xs.
       (refused w c fd d \<longrightarrow>
          (\<exists>p\<in>set (denied w). ErrExtract k (FsError ''EACCES'' p) \<in> set es2)
          \<and> node_at w' (?F d) = node_at w1 (?F d))
       \<and> (\<not> refused w c fd d \<longrightarrow>
          FsWrite (?F d) (JObj d) \<in> set es2 \<and> node_at w' (?F d) = Some (File (JObj d)))"
    by (auto simp: same s(3))
  let ?es = "es1 @ es2"
  have 1: "for_each (extract_document c fd) (x # xs) (w, n)
           = Some (w', n + length (filter (\<lambda>(k, d). \<not> refused w c fd d) (x # xs)))"
    using s(1) ih(1) x s(6,7) by (cases "refused w c fd d") simp_all
  have 2: "trace w' = trace w @ ?es" using s(5) ih(5) by simp
  have apart_d: "?F d' \<notin> set (prefixes (?Dr d))" if "(k', d') \<in> set docs" for k' d'
    using assms(1) mem that by (auto simp: apart_def)
  have apart_r: "?F d \<notin> set (prefixes (?Dr d'))" if "(k', d') \<in> set docs" for k' d'
    using assms(1) mem that by (auto simp: apart_def)
  have other: "?F d' \<noteq> ?F d" if "(k', d') \<in> set xs" for k' d'
    using Cons.prems(2) x that by force
  have 3: "\<forall>q. (\<forall>(k, d)\<in>set (x # xs). q \<noteq> ?F d \<and> q \<notin> set (prefixes (?Dr d)))
              \<longrightarrow> node_at w' q = node_at w q"
  proof (intro allI impI)
    fix q assume a: "\<forall>(k, d)\<in>set (x # xs). q \<noteq> ?F d \<and> q \<notin> set (prefixes (?Dr d))"
    then have "node_at w' q = node_at w1 q" using ih(6) by simp
    moreover have "node_at w1 q = node_at w q" using a x s(4) by simp
    ultimately show "node_at w' q = node_at w q" by simp
  qed
  have stay: "node_at w' (?F d) = node_at w1 (?F d)"
  proof -
    have "\<forall>(k', d')\<in>set xs. ?F d \<noteq> ?F d' \<and> ?F d \<notin> set (prefixes (?Dr d'))"
    proof (clarify, intro conjI)
      fix k' d' assume m': "(k', d') \<in> set xs"
      show "?F d \<noteq> ?F d'" using other[OF m'] by simp
      show "?F d \<notin> set (prefixes (?Dr d'))" using apart_r[of k' d'] m' sub by blast
    qed
    then show ?thesis using ih(6) by blast
  qed
  have head: "(refused w c fd d \<longrightarrow>
          (\<exists>p\<in>set (denied w). ErrExtract k (FsError ''EACCES'' p) \<in> set ?es)
          \<and> node_at w' (?F d) = node_at w (?F d))
       \<and> (\<not> refused w c fd d \<longrightarrow>
          FsWrite (?F d) (JObj d) \<in> set ?es \<and> node_at w' (?F d) = Some (File (JObj d)))"
  proof (cases "refused w c fd d")
    case True
    then obtain p where p: "p \<in> set (denied w)" "ErrExtract k (FsError ''EACCES'' p) \<in> set es1"
      using s(6) by blast
    then have "ErrExtract k (FsError ''EACCES'' p) \<in> set ?es" by simp
    moreover have "node_at w1 (?F d) = node_at w (?F d)"
      using s(4) True apart_d[OF mem] by simp
    ultimately show ?thesis using True p(1) stay by auto
  next
    case False
    then have "FsWrite (?F d) (JObj d) \<in> set ?es" using s(7) by simp
    moreover have "node_at w1 (?F d) = Some (File (JObj d))" using s(4) False by simp
    ultimately show ?thesis using False stay by simp
  qed
  have tail: "\<forall>(k', d')\<in>set xs.
       (refused w c fd d' \<longrightarrow>
          (\<exists>p\<in>set (denied w). ErrExtract k' (FsError ''EACCES'' p) \<in> set ?es)
          \<and> node_at w' (?F d') = node_at w (?F d'))
       \<and> (\<not> refused w c fd d' \<longrightarrow>
          FsWrite (?F d') (JObj d') \<in> set ?es \<and> node_at w' (?F d') = Some (File (JObj d')))"
  proof (clarify)
    fix k' d' assume m': "(k', d') \<in> set xs"
    have "node_at w1 (?F d') = node_at w (?F d')"
      using s(4) other[OF m'] apart_d[of k' d'] m' sub by auto
    with ih(7) m' show "(refused w c fd d' \<longrightarrow>
          (\<exists>p\<in>set (denied w). ErrExtract k' (FsError ''EACCES'' p) \<in> set ?es)
          \<and> node_at w' (?F d') = node_at w (?F d'))
       \<and> (\<not> refused w c fd d' \<longrightarrow>
          FsWrite (?F d') (JObj d') \<in> set ?es \<and> node_at w' (?F d') = Some (File (JObj d')))"
      by auto
  qed
  have 4: "\<forall>(k, d)\<in>set (x # xs).
       (refused w c fd d \<longrightarrow>
          (\<exists>p\<in>set (denied w). ErrExtract k (FsError ''EACCES'' p) \<in> set ?es)
          \<and> node_at w' (?F d) = node_at w (?F d))
       \<and> (\<not> refused w c fd d \<longrightarrow>
          FsWrite (?F d) (JObj d) \<in> set ?es \<and> node_at w' (?F d) = Some (File (JObj d)))"
    using head tail x by simp
  from 1 ih(2,3,4) 2 3 4 show ?case by blast
qed


lemma for_each_append:
  "for_each body (xs @ ys) s = Option.bind (for_each body xs s) (for_each body ys)"
  by (induction xs arbitrary: s) (auto split: Option.bind_splits)

lemma extract_document_answer:
  assumes "resolveFolderPath d fd \<noteq> None"
  shows "extract_document c fd (w, n) (k, d) =
     (case fs_answer c fd d w of
        (w2, None) \<Rightarrow> Some (w2, Suc n)
      | (w2, Some e) \<Rightarrow> Some (emit (ErrExtract k e) w2, n))"
proof -
  obtain fp ws where r: "resolveFolderPath d fd = Some (fp, ws)" using assms by auto
  show ?thesis
    unfolding extract_document_unfold[OF r] fs_answer_def r
    by (simp split: prod.splits option.splits)
qed

lemma fs_answer_written:
  assumes "resolveFolderPath d fd \<noteq> None" "fs_answer c fd d w = (w2, None)"
  shows "node_at w2 (file_of c fd d) = Some (File (JObj d))"
proof -
  obtain fp ws where r: "resolveFolderPath d fd = Some (fp, ws)" using assms(1) by auto
  obtain w1 r1 where m: "fs_mkdir (target_dir c fp) (warned ws w) = (w1, r1)"
    by (cases "fs_mkdir (target_dir c fp) (warned ws w)") auto
  have r1: "r1 = None" using assms(2) r m by (cases r1) (auto simp: fs_answer_def)
  then have wr: "fs_writeFile (target_file c d fp) (JObj d) w1 = (w2, None)"
    using assms(2) r m by (simp add: fs_answer_def)
  have "node_at w2 (target_file c d fp) = Some (File (JObj d))"
    using fs_writeFile_done[OF wr] by simp
  then show ?thesis using r by (simp add: file_of_def)
qed

lemma turn_goes_on:
  assumes "\<forall>(k, d)\<in>set (xs @ (k, d) # ys). resolveFolderPath d fd \<noteq> None"
  shows "\<exists>wi ni. for_each (extract_document c fd) xs (w, n) = Some (wi, ni)
      \<and> (case fs_answer c fd d wi of
           (w2, None) \<Rightarrow>
             node_at w2 (file_of c fd d) = Some (File (JObj d))
             \<and> for_each (extract_document c fd) (xs @ (k, d) # ys) (w, n)
                 = for_each (extract_document c fd) ys (w2, Suc ni)
         | (w2, Some e) \<Rightarrow>
             for_each (extract_document c fd) (xs @ (k, d) # ys) (w, n)
               = for_each (extract_document c fd) ys (emit (ErrExtract k e) w2, ni))"
proof -
  have a: "\<forall>(k, d)\<in>set xs. resolveFolderPath d fd \<noteq> None" using assms by auto
  have rd: "resolveFolderPath d fd \<noteq> None" using assms by auto
  from for_each_documents[OF a, of c w n] obtain wi ni where
    i: "for_each (extract_document c fd) xs (w, n) = Some (wi, ni)" by blast
  obtain w2 r where f: "fs_answer c fd d wi = (w2, r)" by (cases "fs_answer c fd d wi")
  have all: "for_each (extract_document c fd) (xs @ (k, d) # ys) (w, n)
      = Option.bind (extract_document c fd (wi, ni) (k, d)) (for_each (extract_document c fd) ys)"
    by (simp add: for_each_append i)
  show ?thesis
  proof (cases r)
    case None
    have "node_at w2 (file_of c fd d) = Some (File (JObj d))"
      using fs_answer_written[OF rd] f None by simp
    then show ?thesis
      using i all f None by (simp add: extract_document_answer[OF rd])
  next
    case (Some e)
    then show ?thesis
      using i all f by (simp add: extract_document_answer[OF rd])
  qed
qed


text \<open>
  C8. In the write loop a failure of one document is caught and logged and the loop goes
  on with the documents after it, when the walk through the folders ends for every
  document. The loop ends without an error, and the count that is reported is the number
  of files written (the number of documents less the failures). At the turn of each
  document, in any world and whatever the failure: when \<^verbatim>\<open>mkdir\<close> and \<^verbatim>\<open>writeFile\<close>
  succeed the file holds the document and the count goes up by one, when one of them fails
  its error is logged under the key of the document and the count stays; in both cases the
  documents after it are processed from that world and lead to the world the loop ends in.
  When no deletion is pending and the documents do not clash (no two with the same file,
  no file where a folder is needed, no folder where a file is needed), the only failures
  are the refusals of the file system: a document whose folder or file is refused has the
  refusal in the log and its file is as it was before the loop, every other document has
  its file in the tree when the loop has ended, holding the document, and the count is the
  number of these documents.
\<close>

theorem write_failure_does_not_abort:
  assumes "\<forall>(k, d)\<in>set (fst (organizeDocuments allDocuments)). resolveFolderPath d fd \<noteq> None"
  shows "\<exists>w' w1 es n. extractDocuments c allDocuments fd w = Some w'
           \<and> w' = emit (LogCount n) w1
           \<and> trace w' = trace w @ es @ [LogCount n]
           \<and> n = length (filter is_write es)
           \<and> length (fst (organizeDocuments allDocuments)) = n + length (filter is_failure es)
           \<and> (\<forall>(k, d)\<in>set (fst (organizeDocuments allDocuments)).
                  (\<exists>e. ErrExtract k e \<in> set es)
                  \<or> FsWrite (file_of c fd d) (JObj d) \<in> set es)
           \<and> (\<forall>xs k d ys. fst (organizeDocuments allDocuments) = xs @ (k, d) # ys \<longrightarrow>
                (\<exists>wi ni. for_each (extract_document c fd) xs (w, 0) = Some (wi, ni)
                   \<and> (case fs_answer c fd d wi of
                        (w2, None) \<Rightarrow>
                          node_at w2 (file_of c fd d) = Some (File (JObj d))
                          \<and> for_each (extract_document c fd) ys (w2, Suc ni) = Some (w1, n)
                      | (w2, Some e) \<Rightarrow>
                          for_each (extract_document c fd) ys (emit (ErrExtract k e) w2, ni)
                            = Some (w1, n))))
           \<and> (idle w \<and> clash_free c fd w (fst (organizeDocuments allDocuments)) \<longrightarrow>
                n = length (filter (\<lambda>(k, d). \<not> refused w c fd d)
                                   (fst (organizeDocuments allDocuments)))
                \<and> (\<forall>(k, d)\<in>set (fst (organizeDocuments allDocuments)).
                      (refused w c fd d \<longrightarrow>
                         (\<exists>p\<in>set (denied w). ErrExtract k (FsError ''EACCES'' p) \<in> set es)
                         \<and> node_at w' (file_of c fd d) = node_at w (file_of c fd d))
                      \<and> (\<not> refused w c fd d \<longrightarrow>
                         FsWrite (file_of c fd d) (JObj d) \<in> set es
                         \<and> node_at w' (file_of c fd d) = Some (File (JObj d)))))"
proof -
  obtain tops emb where o: "organizeDocuments allDocuments = (tops, emb)"
    by (cases "organizeDocuments allDocuments")
  have a: "\<forall>(k, d)\<in>set tops. resolveFolderPath d fd \<noteq> None" using assms o by simp
  from for_each_documents[OF a, of c w 0] obtain w1 es where l:
    "for_each (extract_document c fd) tops (w, 0) = Some (w1, length (filter is_write es))"
    "trace w1 = trace w @ es"
    "length tops = length (filter is_write es) + length (filter is_failure es)"
    "\<forall>(k, d)\<in>set tops. (\<exists>e. ErrExtract k e \<in> set es)
        \<or> FsWrite (file_of c fd d) (JObj d) \<in> set es"
    by auto
  let ?n = "length (filter is_write es)"
  let ?w' = "emit (LogCount ?n) w1"
  have 1: "extractDocuments c allDocuments fd w = Some ?w'"
    using l(1) o by (simp add: extractDocuments_def)
  have 2: "trace ?w' = trace w @ es @ [LogCount ?n]"
    using l(2) by (simp add: emit_def)
  have 3: "\<forall>xs k d ys. tops = xs @ (k, d) # ys \<longrightarrow>
            (\<exists>wi ni. for_each (extract_document c fd) xs (w, 0) = Some (wi, ni)
               \<and> (case fs_answer c fd d wi of
                    (w2, None) \<Rightarrow>
                      node_at w2 (file_of c fd d) = Some (File (JObj d))
                      \<and> for_each (extract_document c fd) ys (w2, Suc ni) = Some (w1, ?n)
                  | (w2, Some e) \<Rightarrow>
                      for_each (extract_document c fd) ys (emit (ErrExtract k e) w2, ni)
                        = Some (w1, ?n)))"
  proof (intro allI impI)
    fix xs k d ys assume t: "tops = xs @ (k, d) # ys"
    have "\<forall>(k, d)\<in>set (xs @ (k, d) # ys). resolveFolderPath d fd \<noteq> None"
      using a t by simp
    from turn_goes_on[OF this, of c w 0] obtain wi ni where
      i: "for_each (extract_document c fd) xs (w, 0) = Some (wi, ni)"
      and g: "case fs_answer c fd d wi of
           (w2, None) \<Rightarrow>
             node_at w2 (file_of c fd d) = Some (File (JObj d))
             \<and> for_each (extract_document c fd) (xs @ (k, d) # ys) (w, 0)
                 = for_each (extract_document c fd) ys (w2, Suc ni)
         | (w2, Some e) \<Rightarrow>
             for_each (extract_document c fd) (xs @ (k, d) # ys) (w, 0)
               = for_each (extract_document c fd) ys (emit (ErrExtract k e) w2, ni)"
      by (elim exE conjE) (rule that)
    have e: "for_each (extract_document c fd) (xs @ (k, d) # ys) (w, 0) = Some (w1, ?n)"
      using l(1) t by simp
    have "case fs_answer c fd d wi of
            (w2, None) \<Rightarrow>
              node_at w2 (file_of c fd d) = Some (File (JObj d))
              \<and> for_each (extract_document c fd) ys (w2, Suc ni) = Some (w1, ?n)
          | (w2, Some e) \<Rightarrow>
              for_each (extract_document c fd) ys (emit (ErrExtract k e) w2, ni)
                = Some (w1, ?n)"
      using g unfolding e by (auto split: prod.splits option.splits)
    with i show "\<exists>wi ni. for_each (extract_document c fd) xs (w, 0) = Some (wi, ni)
               \<and> (case fs_answer c fd d wi of
                    (w2, None) \<Rightarrow>
                      node_at w2 (file_of c fd d) = Some (File (JObj d))
                      \<and> for_each (extract_document c fd) ys (w2, Suc ni) = Some (w1, ?n)
                  | (w2, Some e) \<Rightarrow>
                      for_each (extract_document c fd) ys (emit (ErrExtract k e) w2, ni)
                        = Some (w1, ?n))"
      by (intro exI conjI)
  qed
  have 4: "idle w \<and> clash_free c fd w tops \<longrightarrow>
             ?n = length (filter (\<lambda>(k, d). \<not> refused w c fd d) tops)
             \<and> (\<forall>(k, d)\<in>set tops.
                   (refused w c fd d \<longrightarrow>
                      (\<exists>p\<in>set (denied w). ErrExtract k (FsError ''EACCES'' p) \<in> set es)
                      \<and> node_at ?w' (file_of c fd d) = node_at w (file_of c fd d))
                   \<and> (\<not> refused w c fd d \<longrightarrow>
                      FsWrite (file_of c fd d) (JObj d) \<in> set es
                      \<and> node_at ?w' (file_of c fd d) = Some (File (JObj d))))"
  proof (intro impI)
    assume h: "idle w \<and> clash_free c fd w tops"
    then have i: "idle w" and cf: "clash_free c fd w tops" by simp_all
    have d: "distinct (map (\<lambda>(k, d). file_of c fd d) tops)"
      and td: "tidy c fd w tops" and ap: "apart c fd tops"
      using cf by (simp_all add: clash_free_parts)
    from documents_loop[OF ap a subset_refl d i td, of 0] obtain w2 es2 where s:
      "for_each (extract_document c fd) tops (w, 0)
         = Some (w2, 0 + length (filter (\<lambda>(k, d). \<not> refused w c fd d) tops))"
      "trace w2 = trace w @ es2"
      "\<forall>(k, d)\<in>set tops.
         (refused w c fd d \<longrightarrow>
            (\<exists>p\<in>set (denied w). ErrExtract k (FsError ''EACCES'' p) \<in> set es2)
            \<and> node_at w2 (file_of c fd d) = node_at w (file_of c fd d))
         \<and> (\<not> refused w c fd d \<longrightarrow>
            FsWrite (file_of c fd d) (JObj d) \<in> set es2
            \<and> node_at w2 (file_of c fd d) = Some (File (JObj d)))"
      by blast
    have w2: "w2 = w1" and n: "?n = length (filter (\<lambda>(k, d). \<not> refused w c fd d) tops)"
      using s(1) l(1) by simp_all
    have es2: "es2 = es" using s(2) l(2) w2 by simp
    have nd: "node_at ?w' q = node_at w1 q" for q by (simp add: node_at_emit)
    show "?n = length (filter (\<lambda>(k, d). \<not> refused w c fd d) tops)
          \<and> (\<forall>(k, d)\<in>set tops.
                (refused w c fd d \<longrightarrow>
                   (\<exists>p\<in>set (denied w). ErrExtract k (FsError ''EACCES'' p) \<in> set es)
                   \<and> node_at ?w' (file_of c fd d) = node_at w (file_of c fd d))
                \<and> (\<not> refused w c fd d \<longrightarrow>
                   FsWrite (file_of c fd d) (JObj d) \<in> set es
                   \<and> node_at ?w' (file_of c fd d) = Some (File (JObj d))))"
      using n s(3) unfolding nd w2 es2 by blast
  qed
  have 5: "length tops = ?n + length (filter is_failure es)" using l(3) by simp
  have "extractDocuments c allDocuments fd w = Some ?w'
           \<and> ?w' = emit (LogCount ?n) w1
           \<and> trace ?w' = trace w @ es @ [LogCount ?n]
           \<and> ?n = length (filter is_write es)
           \<and> length tops = ?n + length (filter is_failure es)
           \<and> (\<forall>(k, d)\<in>set tops.
                  (\<exists>e. ErrExtract k e \<in> set es)
                  \<or> FsWrite (file_of c fd d) (JObj d) \<in> set es)
           \<and> (\<forall>xs k d ys. tops = xs @ (k, d) # ys \<longrightarrow>
                (\<exists>wi ni. for_each (extract_document c fd) xs (w, 0) = Some (wi, ni)
                   \<and> (case fs_answer c fd d wi of
                        (w2, None) \<Rightarrow>
                          node_at w2 (file_of c fd d) = Some (File (JObj d))
                          \<and> for_each (extract_document c fd) ys (w2, Suc ni) = Some (w1, ?n)
                      | (w2, Some e) \<Rightarrow>
                          for_each (extract_document c fd) ys (emit (ErrExtract k e) w2, ni)
                            = Some (w1, ?n))))
           \<and> (idle w \<and> clash_free c fd w tops \<longrightarrow>
                ?n = length (filter (\<lambda>(k, d). \<not> refused w c fd d) tops)
                \<and> (\<forall>(k, d)\<in>set tops.
                      (refused w c fd d \<longrightarrow>
                         (\<exists>p\<in>set (denied w). ErrExtract k (FsError ''EACCES'' p) \<in> set es)
                         \<and> node_at ?w' (file_of c fd d) = node_at w (file_of c fd d))
                      \<and> (\<not> refused w c fd d \<longrightarrow>
                         FsWrite (file_of c fd d) (JObj d) \<in> set es
                         \<and> node_at ?w' (file_of c fd d) = Some (File (JObj d)))))"
    using 1 2 3 4 5 l(4) by (intro conjI) (rule refl | assumption)+
  then show ?thesis unfolding o fst_conv by (intro exI)
qed


theorem write_failure_does_not_abort_witness:
  "\<exists>w' w1 w2. extractDocuments actors two_actors [] refusing = Some w'
      \<and> node_at refusing [''repo'', ''packsrc'', ''actors'', ''A.json''] = None
      \<and> node_at w' [''repo'', ''packsrc'', ''actors'', ''A.json''] = None
      \<and> node_at refusing [''repo'', ''packsrc'', ''actors'', ''B.json''] = None
      \<and> node_at w' [''repo'', ''packsrc'', ''actors'', ''B.json'']
          = Some (File (JObj [(''name'', JStr ''B'')]))
      \<and> trace w'
          = [FsMkdir [''repo'', ''packsrc'', ''actors''],
             ErrExtract ''!actor!P1''
               (FsError ''EACCES'' [''repo'', ''packsrc'', ''actors'', ''A.json'']),
             FsMkdir [''repo'', ''packsrc'', ''actors''],
             FsWrite [''repo'', ''packsrc'', ''actors'', ''B.json''] (JObj [(''name'', JStr ''B'')]),
             LogCount 1]
      \<and> fs_answer actors [] [(''name'', JStr ''A'')] refusing
          = (w2, Some (FsError ''EACCES'' [''repo'', ''packsrc'', ''actors'', ''A.json'']))
      \<and> for_each (extract_document actors []) [(''!actor!P2'', [(''name'', JStr ''B'')])]
           (emit (ErrExtract ''!actor!P1''
                    (FsError ''EACCES'' [''repo'', ''packsrc'', ''actors'', ''A.json''])) w2, 0)
          = Some (w1, 1)
      \<and> w' = emit (LogCount 1) w1"
proof -
  let ?A = "[(''name'', JStr ''A'')]" and ?B = "[(''name'', JStr ''B'')]"
  let ?e = "FsError ''EACCES'' [''repo'', ''packsrc'', ''actors'', ''A.json'']"
  have t: "fst (organizeDocuments two_actors) = [(''!actor!P1'', ?A), (''!actor!P2'', ?B)]"
    by code_simp
  have h: "\<forall>(k, d)\<in>set (fst (organizeDocuments two_actors)). resolveFolderPath d [] \<noteq> None"
    by code_simp
  have i: "idle refusing" by code_simp
  have cf: "clash_free actors [] refusing (fst (organizeDocuments two_actors))" by code_simp
  have ra: "refused refusing actors [] ?A" by code_simp
  have rb: "\<not> refused refusing actors [] ?B" by code_simp
  have fa: "file_of actors [] ?A = [''repo'', ''packsrc'', ''actors'', ''A.json'']" by code_simp
  have fb: "file_of actors [] ?B = [''repo'', ''packsrc'', ''actors'', ''B.json'']" by code_simp
  have na: "node_at refusing [''repo'', ''packsrc'', ''actors'', ''A.json''] = None" by code_simp
  have nb: "node_at refusing [''repo'', ''packsrc'', ''actors'', ''B.json''] = None" by code_simp
  have an: "snd (fs_answer actors [] ?A refusing) = Some ?e" by code_simp
  have e: "map_option trace (extractDocuments actors two_actors [] refusing)
       = Some [FsMkdir [''repo'', ''packsrc'', ''actors''],
               ErrExtract ''!actor!P1''
                 (FsError ''EACCES'' [''repo'', ''packsrc'', ''actors'', ''A.json'']),
               FsMkdir [''repo'', ''packsrc'', ''actors''],
               FsWrite [''repo'', ''packsrc'', ''actors'', ''B.json''] (JObj [(''name'', JStr ''B'')]),
               LogCount 1]"
    by code_simp
  from write_failure_does_not_abort[OF h, of actors refusing] obtain w' w1 es n where r:
    "extractDocuments actors two_actors [] refusing = Some w'"
    "w' = emit (LogCount n) w1"
    "\<forall>xs k d ys. fst (organizeDocuments two_actors) = xs @ (k, d) # ys \<longrightarrow>
       (\<exists>wi ni. for_each (extract_document actors []) xs (refusing, 0) = Some (wi, ni)
          \<and> (case fs_answer actors [] d wi of
               (w2, None) \<Rightarrow>
                 node_at w2 (file_of actors [] d) = Some (File (JObj d))
                 \<and> for_each (extract_document actors []) ys (w2, Suc ni) = Some (w1, n)
             | (w2, Some e) \<Rightarrow>
                 for_each (extract_document actors []) ys (emit (ErrExtract k e) w2, ni)
                   = Some (w1, n)))"
    "idle refusing \<and> clash_free actors [] refusing (fst (organizeDocuments two_actors)) \<longrightarrow>
       n = length (filter (\<lambda>(k, d). \<not> refused refusing actors [] d)
                          (fst (organizeDocuments two_actors)))
       \<and> (\<forall>(k, d)\<in>set (fst (organizeDocuments two_actors)).
             (refused refusing actors [] d \<longrightarrow>
                (\<exists>p\<in>set (denied refusing). ErrExtract k (FsError ''EACCES'' p) \<in> set es)
                \<and> node_at w' (file_of actors [] d) = node_at refusing (file_of actors [] d))
             \<and> (\<not> refused refusing actors [] d \<longrightarrow>
                FsWrite (file_of actors [] d) (JObj d) \<in> set es
                \<and> node_at w' (file_of actors [] d) = Some (File (JObj d))))"
    by (elim exE conjE) (rule that)
  have s: "n = length (filter (\<lambda>(k, d). \<not> refused refusing actors [] d)
                          [(''!actor!P1'', ?A), (''!actor!P2'', ?B)])"
    "\<forall>(k, d)\<in>set [(''!actor!P1'', ?A), (''!actor!P2'', ?B)].
             (refused refusing actors [] d \<longrightarrow>
                node_at w' (file_of actors [] d) = node_at refusing (file_of actors [] d))
             \<and> (\<not> refused refusing actors [] d \<longrightarrow>
                node_at w' (file_of actors [] d) = Some (File (JObj d)))"
    using r(4) i cf unfolding t by blast+
  have n: "n = 1" using s(1) ra rb by simp
  have a: "node_at w' [''repo'', ''packsrc'', ''actors'', ''A.json''] = None"
    using s(2) ra fa na by simp
  have b: "node_at w' [''repo'', ''packsrc'', ''actors'', ''B.json''] = Some (File (JObj ?B))"
    using s(2) rb fb by simp
  have tr: "trace w'
          = [FsMkdir [''repo'', ''packsrc'', ''actors''],
             ErrExtract ''!actor!P1''
               (FsError ''EACCES'' [''repo'', ''packsrc'', ''actors'', ''A.json'']),
             FsMkdir [''repo'', ''packsrc'', ''actors''],
             FsWrite [''repo'', ''packsrc'', ''actors'', ''B.json''] (JObj [(''name'', JStr ''B'')]),
             LogCount 1]"
    using e unfolding r(1) by simp
  obtain w2 where f: "fs_answer actors [] ?A refusing = (w2, Some ?e)"
    using an by (cases "fs_answer actors [] ?A refusing") simp
  have "fst (organizeDocuments two_actors) = [] @ (''!actor!P1'', ?A) # [(''!actor!P2'', ?B)]"
    using t by simp
  with r(3) have "\<exists>wi ni. for_each (extract_document actors []) [] (refusing, 0) = Some (wi, ni)
          \<and> (case fs_answer actors [] ?A wi of
               (w2, None) \<Rightarrow>
                 node_at w2 (file_of actors [] ?A) = Some (File (JObj ?A))
                 \<and> for_each (extract_document actors []) [(''!actor!P2'', ?B)] (w2, Suc ni)
                     = Some (w1, n)
             | (w2, Some e) \<Rightarrow>
                 for_each (extract_document actors []) [(''!actor!P2'', ?B)]
                   (emit (ErrExtract ''!actor!P1'' e) w2, ni) = Some (w1, n))"
    by (elim allE impE) assumption+
  then have g: "for_each (extract_document actors []) [(''!actor!P2'', ?B)]
                   (emit (ErrExtract ''!actor!P1'' ?e) w2, 0) = Some (w1, 1)"
    using f n by auto
  have l: "w' = emit (LogCount 1) w1" using r(2) n by simp
  from r(1) na a nb b tr f g l show ?thesis by (intro exI conjI)
qed

end
